theory Spec2Isabelle
  imports Main
begin

section \<open>The ragged array of datashader/datatypes.py\<close>

text \<open>
  A \<open>RaggedArray\<close> packs a sequence of variable-length one-dimensional arrays into
  one flat buffer (\<open>flat_array\<close>) and one buffer of unsigned start offsets
  (\<open>start_indices\<close>). The definitions below follow the Python source function by
  function. Values of the flat buffer are taken from one element type \<open>'a\<close>: the
  numeric dtype of the values (and the casts numpy applies when dtypes are mixed) is not
  modelled. The dtype of the offsets buffer is modelled by its width \<open>nbits\<close>, since
  the source picks it (8, 16, 32 or 64) and later does arithmetic on it. Where the source
  calls numpy or pandas, the definitions follow the behaviour of the versions the source
  runs on (numpy 1.x, where \<open>np.hstack\<close> still takes a generator, and pandas 0.24),
  and say so at the place.
\<close>

subsection \<open>Errors and sequence items\<close>

datatype pyerror =
    ValueError_start_indices
  | ValueError_flat_array
  | ValueError_invalid "nat list"
  | ValueError_take "int list"
  | ValueError_length
  | ValueError_fillna
  | ValueError_numpy
  | IndexError

text \<open>
  An item of a source sequence, and the result of materializing one position:
  \<open>None\<close>, the scalar \<open>np.nan\<close>, a one-dimensional array, or any other sized
  object. For the last, the item records what the constructor can observe of it: its
  \<open>len()\<close>, and the values numpy writes when the object is assigned to a slice of
  that length (\<open>None\<close> when numpy raises).
\<close>

datatype 'a item = PyNone | NaN | Array "'a list" | Object nat "'a list option"

definition missing :: "'a item \<Rightarrow> bool" where
  "missing v = (v = PyNone \<or> v = NaN)"

record 'a ragged =
  nbits :: nat
  start_indices :: "nat list"
  flat_array :: "'a list"

definition len :: "'a ragged \<Rightarrow> nat" where
  "len c = length (start_indices c)"

subsection \<open>Positional access\<close>

text \<open>\<open>xs[lo:hi]\<close> for non-negative bounds: empty when \<open>hi \<le> lo\<close>, clipped at the end.\<close>

definition np_slice :: "'a list \<Rightarrow> nat \<Rightarrow> nat \<Rightarrow> 'a list" where
  "np_slice xs lo hi = take (hi - lo) (drop lo xs)"

definition getitem :: "'a ragged \<Rightarrow> int \<Rightarrow> pyerror + 'a item" where
  "getitem c item =
     (if item < - int (len c) \<or> item \<ge> int (len c) then Inl IndexError
      else
        let item' = (if item < 0 then int (len c) + item else item);
            slice_start = start_indices c ! nat item';
            slice_end = (if item' + 1 \<le> int (len c) - 1
                         then start_indices c ! nat (item' + 1)
                         else length (flat_array c))
        in Inr (if slice_end \<noteq> slice_start
                then Array (np_slice (flat_array c) slice_start slice_end)
                else NaN))"

text \<open>The specification's words for positional access, to compare with \<open>getitem\<close>.\<close>

definition stop_offset :: "'a ragged \<Rightarrow> nat \<Rightarrow> nat" where
  "stop_offset c i =
     (if Suc i < len c then start_indices c ! Suc i else length (flat_array c))"

definition value_range :: "'a list \<Rightarrow> nat \<Rightarrow> nat \<Rightarrow> 'a list" where
  "value_range vs lo hi = map (\<lambda>k. vs ! k) [lo ..< min hi (length vs)]"

definition positional_access :: "'a ragged \<Rightarrow> int \<Rightarrow> pyerror + 'a item" where
  "positional_access c i =
     (if i < - int (len c) \<or> int (len c) \<le> i then Inl IndexError
      else
        let p = nat (i mod int (len c));
            start = start_indices c ! p;
            stop = stop_offset c p
        in if start = stop then Inr NaN
           else Inr (Array (value_range (flat_array c) start stop)))"

subsection \<open>Construction from a sequence\<close>

text \<open>\<open>len(datum) if not missing(datum) else 0\<close>.\<close>

definition item_len :: "'a item \<Rightarrow> nat" where
  "item_len v =
     (if \<not> missing v
      then (case v of Array xs \<Rightarrow> length xs | Object n w \<Rightarrow> n | _ \<Rightarrow> 0)
      else 0)"

text \<open>
  The loop over \<open>[8, 16, 32, 64]\<close> that stops at the first width whose maximum
  holds \<open>buffer_len\<close>; when none does, the last width tried stays.
\<close>

fun pick_nbits :: "nat list \<Rightarrow> nat \<Rightarrow> nat \<Rightarrow> nat" where
  "pick_nbits [] cur buffer_len = cur"
| "pick_nbits (nb # rest) cur buffer_len =
     (if buffer_len \<le> 2 ^ nb - 1 then nb else pick_nbits rest nb buffer_len)"

text \<open>
  \<open>flat_array[lo:lo+n] = array_el\<close>. A missing item is assigned to an empty slice
  and writes nothing. numpy raises when the shapes do not fit.
\<close>

fun assign_slice :: "'a list \<Rightarrow> nat \<Rightarrow> nat \<Rightarrow> 'a item \<Rightarrow> pyerror + 'a list" where
  "assign_slice fa lo n PyNone = Inr fa"
| "assign_slice fa lo n NaN = Inr fa"
| "assign_slice fa lo n (Array xs) =
     (if lo + n \<le> length fa \<and> length xs = n
      then Inr (take lo fa @ xs @ drop (lo + n) fa)
      else Inl ValueError_numpy)"
| "assign_slice fa lo n (Object m w) =
     (case w of
        None \<Rightarrow> Inl ValueError_numpy
      | Some vs \<Rightarrow>
          if lo + n \<le> length fa \<and> length vs = n
          then Inr (take lo fa @ vs @ drop (lo + n) fa)
          else Inl ValueError_numpy)"

fun populate ::
  "'a item list \<Rightarrow> nat \<Rightarrow> nat \<Rightarrow> nat list \<Rightarrow> 'a list \<Rightarrow> pyerror + nat list \<times> 'a list"
where
  "populate [] i next_start_ind si fa = Inr (si, fa)"
| "populate (array_el # rest) i next_start_ind si fa =
     (let n = item_len array_el;
          si' = si[i := next_start_ind]
      in case assign_slice fa next_start_ind n array_el of
           Inl e \<Rightarrow> Inl e
         | Inr fa' \<Rightarrow> populate rest (Suc i) (next_start_ind + n) si' fa')"

subsection \<open>Construction from a raw pair\<close>

text \<open>
  The two values of the dict as the validation sees them: whether the object is a numpy
  array, its \<open>dtype.kind\<close>, the width of its items in bits, its \<open>ndim\<close> and its
  items. Of the values array only \<open>ndim\<close> and the items are read.
\<close>

datatype start_indices_obj = NotNdarray | Ndarray char nat nat "nat list"

datatype 'a flat_array_obj = NotValues | Values nat "'a list"

text \<open>
  \<open>xs[mask]\<close> with a boolean mask. numpy (1.13 and later) raises an \<open>IndexError\<close>
  when the mask is not as long as the array.
\<close>

definition np_bool_index :: "'e list \<Rightarrow> bool list \<Rightarrow> pyerror + 'e list" where
  "np_bool_index xs bs =
     (if length bs \<noteq> length xs then Inl IndexError
      else Inr (map fst (filter snd (zip xs bs))))"

definition validate_ragged_properties ::
  "start_indices_obj \<Rightarrow> 'a flat_array_obj \<Rightarrow> pyerror + unit"
where
  "validate_ragged_properties si fa =
     (case si of
        NotNdarray \<Rightarrow> Inl ValueError_start_indices
      | Ndarray k b d start_inds \<Rightarrow>
          if k \<noteq> CHR ''u'' \<or> d \<noteq> 1 then Inl ValueError_start_indices
          else
            (case fa of
               NotValues \<Rightarrow> Inl ValueError_flat_array
             | Values d' flat_arr \<Rightarrow>
                 if d' \<noteq> 1 then Inl ValueError_flat_array
                 else
                   let invalid_inds = map (\<lambda>s. s > length flat_arr) start_inds
                   in if True \<in> set invalid_inds
                      then (case np_bool_index start_inds (take 10 invalid_inds) of
                              Inl e \<Rightarrow> Inl e
                            | Inr some_invalid_vals \<Rightarrow> Inl (ValueError_invalid some_invalid_vals))
                      else Inr ()))"

subsection \<open>The constructor\<close>

datatype 'a init_data =
    Dict start_indices_obj "'a flat_array_obj"
  | Other "'a ragged"
  | Sequence "'a item list"

fun RaggedArray :: "'a::zero init_data \<Rightarrow> pyerror + 'a ragged" where
  "RaggedArray (Dict si fa) =
     (case validate_ragged_properties si fa of
        Inl e \<Rightarrow> Inl e
      | Inr u \<Rightarrow>
          (case (si, fa) of
             (Ndarray k b d start_inds, Values d' flat_arr) \<Rightarrow>
               Inr \<lparr>nbits = b, start_indices = start_inds, flat_array = flat_arr\<rparr>
           | _ \<Rightarrow> Inl ValueError_start_indices))"
| "RaggedArray (Other data) =
     Inr \<lparr>nbits = nbits data, start_indices = start_indices data,
          flat_array = flat_array data\<rparr>"
| "RaggedArray (Sequence data) =
     (let index_len = length data;
          buffer_len = sum_list (map item_len data);
          start_indices_nbits = pick_nbits [8, 16, 32, 64] 0 buffer_len
      in case populate data 0 0 (replicate index_len 0) (replicate buffer_len 0) of
           Inl e \<Rightarrow> Inl e
         | Inr (si, fa) \<Rightarrow>
             Inr \<lparr>nbits = start_indices_nbits, start_indices = si, flat_array = fa\<rparr>)"

definition from_sequence :: "'a::zero item list \<Rightarrow> pyerror + 'a ragged" where
  "from_sequence scalars = RaggedArray (Sequence scalars)"

subsection \<open>Access by slice and by boolean mask\<close>

text \<open>The first error of a comprehension is the one raised.\<close>

fun collect :: "('e + 'b) list \<Rightarrow> 'e + 'b list" where
  "collect [] = Inr []"
| "collect (Inl e # rs) = Inl e"
| "collect (Inr x # rs) = (case collect rs of Inl e \<Rightarrow> Inl e | Inr xs \<Rightarrow> Inr (x # xs))"

text \<open>
  A Python slice and the positions it selects in a sequence of length \<open>n\<close>
  (\<open>np.arange(n)[item]\<close>), as \<open>slice.indices\<close> and \<open>range\<close> compute them.
\<close>

datatype pyslice = Slice "int option" "int option" "int option"

definition adjust_bound :: "int \<Rightarrow> int \<Rightarrow> int \<Rightarrow> int \<Rightarrow> int" where
  "adjust_bound v n lower upper = (if v < 0 then max (v + n) lower else min v upper)"

definition range_len :: "int \<Rightarrow> int \<Rightarrow> int \<Rightarrow> nat" where
  "range_len lo hi step =
     (if step > 0 then (if lo < hi then nat ((hi - lo - 1) div step + 1) else 0)
      else (if hi < lo then nat ((lo - hi - 1) div (- step) + 1) else 0))"

definition selected_indices :: "pyslice \<Rightarrow> nat \<Rightarrow> pyerror + int list" where
  "selected_indices item n =
     (case item of Slice start stop step \<Rightarrow>
        let st = (case step of None \<Rightarrow> 1 | Some s \<Rightarrow> s) in
        if st = 0 then Inl ValueError_numpy
        else
          let lower = (if st < 0 then - 1 else 0);
              upper = (if st < 0 then int n - 1 else int n);
              lo = (case start of
                      None \<Rightarrow> (if st < 0 then upper else lower)
                    | Some v \<Rightarrow> adjust_bound v (int n) lower upper);
              hi = (case stop of
                      None \<Rightarrow> (if st < 0 then lower else upper)
                    | Some v \<Rightarrow> adjust_bound v (int n) lower upper)
          in Inr (map (\<lambda>k. lo + int k * st) [0 ..< range_len lo hi st]))"

definition getitem_slice :: "'a::zero ragged \<Rightarrow> pyslice \<Rightarrow> pyerror + 'a ragged" where
  "getitem_slice c item =
     (case selected_indices item (len c) of
        Inl e \<Rightarrow> Inl e
      | Inr inds \<Rightarrow>
          (case collect (map (getitem c) inds) of
             Inl e \<Rightarrow> Inl e
           | Inr data \<Rightarrow> RaggedArray (Sequence data)))"

definition getitem_mask :: "'a::zero ragged \<Rightarrow> bool list \<Rightarrow> pyerror + 'a ragged" where
  "getitem_mask c item =
     (case collect (map (\<lambda>(i, m). getitem c (int i)) (filter snd (enumerate 0 item))) of
        Inl e \<Rightarrow> Inl e
      | Inr data \<Rightarrow> RaggedArray (Sequence data))"

subsection \<open>Take, copy and concatenation\<close>

definition take_ragged ::
  "'a::zero ragged \<Rightarrow> int list \<Rightarrow> bool \<Rightarrow> 'a item \<Rightarrow> pyerror + 'a ragged"
where
  "take_ragged c indices allow_fill fill_value =
     (if allow_fill then
        let invalid_inds = filter (\<lambda>i. i < - 1) indices in
        if invalid_inds \<noteq> [] then Inl (ValueError_take (take 9 invalid_inds))
        else
          (case collect (map (\<lambda>i. if i \<ge> 0 then getitem c i else Inr fill_value) indices) of
             Inl e \<Rightarrow> Inl e
           | Inr sequence \<Rightarrow> RaggedArray (Sequence sequence))
      else if len c = 0 \<and> length indices > 0 then Inl IndexError
      else
        (case collect (map (getitem c) indices) of
           Inl e \<Rightarrow> Inl e
         | Inr sequence \<Rightarrow> RaggedArray (Sequence sequence)))"

text \<open>
  \<open>copy\<close> wraps the two buffers in a dict and constructs from it. With \<open>deep\<close> the
  buffers are copied first; the contents are the same either way.
\<close>

definition copy :: "'a::zero ragged \<Rightarrow> bool \<Rightarrow> pyerror + 'a ragged" where
  "copy c deep =
     RaggedArray (Dict (Ndarray CHR ''u'' (nbits c) 1 (start_indices c))
                       (Values 1 (flat_array c)))"

text \<open>
  \<open>ra.start_indices + offset\<close>: an unsigned array plus a numpy integer scalar. Under
  the value-based casting of numpy before 2.0 the result keeps the array's width unless
  the scalar itself needs a wider one, and the sum wraps around at that width.
\<close>

definition min_scalar_bits :: "nat \<Rightarrow> nat" where
  "min_scalar_bits v =
     (if v < 2 ^ 8 then 8 else if v < 2 ^ 16 then 16 else if v < 2 ^ 32 then 32 else 64)"

definition add_offset :: "nat \<Rightarrow> nat list \<Rightarrow> nat \<Rightarrow> nat \<times> nat list" where
  "add_offset w xs offset =
     (let w' = max w (min_scalar_bits offset)
      in (w', map (\<lambda>x. (x + offset) mod 2 ^ w') xs))"

fun cumsum :: "nat \<Rightarrow> nat list \<Rightarrow> nat list" where
  "cumsum acc [] = []"
| "cumsum acc (x # xs) = (acc + x) # cumsum (acc + x) xs"

text \<open>
  With a single container \<open>np.cumsum([])\<close> is an empty float array, the offsets and
  the sums are floats, and the validation of the constructor rejects them. With no
  container \<open>np.hstack\<close> raises.
\<close>

definition concat_same_type :: "'a::zero ragged list \<Rightarrow> pyerror + 'a ragged" where
  "concat_same_type to_concat =
     (if to_concat = [] then Inl ValueError_numpy
      else
        let flat_arr = concat (map flat_array to_concat);
            offsets = 0 # cumsum 0 (map (\<lambda>ra. length (flat_array ra)) (butlast to_concat));
            k = (if length to_concat = 1 then CHR ''f'' else CHR ''u'');
            parts = map (\<lambda>(offset, ra). add_offset (nbits ra) (start_indices ra) offset)
                      (zip offsets to_concat);
            start_inds = concat (map snd parts);
            w = fold max (map fst parts) 0
        in RaggedArray (Dict (Ndarray k w 1 start_inds) (Values 1 flat_arr)))"

subsection \<open>Missing values, filling and shifting\<close>

text \<open>\<open>list(self)\<close>: every position materialized in order.\<close>

definition materialize :: "'a ragged \<Rightarrow> pyerror + 'a item list" where
  "materialize c = collect (map (\<lambda>i. getitem c (int i)) [0 ..< len c])"

text \<open>
  \<open>isna\<close>: the stacked stop indices are signed 64-bit integers (or floats for 64-bit
  offsets), so the difference does not wrap.
\<close>

definition isna :: "'a ragged \<Rightarrow> bool list" where
  "isna c =
     (let stop_indices = drop 1 (start_indices c) @ [length (flat_array c)];
          element_lengths = map (\<lambda>(stop, start). int stop - int start)
                              (zip stop_indices (start_indices c))
      in map (\<lambda>l. l = 0) element_lengths)"

datatype 'a fill_value = NoValue | ItemValue "'a item" | RaggedValue "'a ragged"

datatype fill_method = Pad | Backfill

text \<open>
  \<open>pad_1d\<close> and \<open>backfill_1d\<close> of pandas: the last valid value seen is written to
  the masked positions that follow it, at most \<open>limit\<close> in a row.
\<close>

fun pad_inplace :: "'v list \<Rightarrow> bool list \<Rightarrow> nat \<Rightarrow> nat \<Rightarrow> 'v \<Rightarrow> 'v list" where
  "pad_inplace (v # vs) (m # ms) lim fill_count val =
     (if m then
        (if fill_count \<ge> lim then v # pad_inplace vs ms lim fill_count val
         else val # pad_inplace vs ms lim (fill_count + 1) val)
      else v # pad_inplace vs ms lim 0 v)"
| "pad_inplace vs ms lim fill_count val = vs"

definition pad_1d :: "'v list \<Rightarrow> nat option \<Rightarrow> bool list \<Rightarrow> 'v list" where
  "pad_1d vals limit msk =
     (case vals of
        [] \<Rightarrow> []
      | v # vs \<Rightarrow>
          pad_inplace vals msk (case limit of None \<Rightarrow> length vals | Some l \<Rightarrow> l) 0 v)"

definition backfill_1d :: "'v list \<Rightarrow> nat option \<Rightarrow> bool list \<Rightarrow> 'v list" where
  "backfill_1d vals limit msk = rev (pad_1d (rev vals) limit (rev msk))"

text \<open>
  \<open>fillna\<close>. A \<open>RaggedArray\<close> given as the value is first reduced to its elements at
  the masked positions; the loop then stores that whole container at every masked
  position of \<open>new_values\<close>. What numpy makes of such an object inside the constructor
  (\<open>np_write\<close>: the values it writes to a slice as long as the object, or \<open>None\<close>
  when it raises) is a parameter.
\<close>

definition fillna ::
  "('a ragged \<Rightarrow> 'a list option) \<Rightarrow> 'a::zero ragged \<Rightarrow> 'a fill_value \<Rightarrow>
   fill_method option \<Rightarrow> nat option \<Rightarrow> pyerror + 'a ragged"
where
  "fillna np_write c val method limit =
     (if (val = NoValue) = (method = None) then Inl ValueError_fillna
      else
        let msk = isna c in
        case (case val of
                RaggedValue v \<Rightarrow>
                  if len v \<noteq> len c then Inl ValueError_length
                  else (case getitem_mask v msk of
                          Inl e \<Rightarrow> Inl e
                        | Inr v' \<Rightarrow> Inr (Object (len v') (np_write v')))
              | ItemValue x \<Rightarrow> Inr x
              | NoValue \<Rightarrow> Inr PyNone) of
          Inl e \<Rightarrow> Inl e
        | Inr val' \<Rightarrow>
            if True \<in> set msk then
              (case materialize c of
                 Inl e \<Rightarrow> Inl e
               | Inr new_values \<Rightarrow>
                   (case method of
                      Some m \<Rightarrow>
                        from_sequence
                          (case m of
                             Pad \<Rightarrow> pad_1d new_values limit msk
                           | Backfill \<Rightarrow> backfill_1d new_values limit msk)
                    | None \<Rightarrow>
                        let mask_indices = map fst (filter snd (enumerate 0 msk))
                        in from_sequence
                             (fold (\<lambda>ind nv. nv[ind := val']) mask_indices new_values)))
            else copy c False)"

text \<open>
  \<open>shift\<close>. The buffer of the fills is built with a dtype of its own (\<open>float64\<close>
  when the fill has no values), and \<open>np.hstack\<close> inside the concatenation brings the
  values of both buffers to their common dtype. The two conversions of values, of the
  container's values and of the fill's, are parameters; each is the identity when its
  buffer has the common dtype already.
\<close>

definition astype_values :: "('a \<Rightarrow> 'a) \<Rightarrow> 'a ragged \<Rightarrow> 'a ragged" where
  "astype_values f r = r\<lparr>flat_array := map f (flat_array r)\<rparr>"

definition shift ::
  "('a \<Rightarrow> 'a) \<Rightarrow> ('a \<Rightarrow> 'a) \<Rightarrow> 'a::zero ragged \<Rightarrow> int \<Rightarrow> 'a item \<Rightarrow> pyerror + 'a ragged"
where
  "shift to_common fill_to_common c periods fill_value =
     (if len c = 0 \<or> periods = 0 then copy c False
      else
        let fill_value' = (if fill_value = PyNone then NaN else fill_value) in
        case from_sequence (replicate (min (nat \<bar>periods\<bar>) (len c)) fill_value') of
          Inl e \<Rightarrow> Inl e
        | Inr empty' \<Rightarrow>
            if periods > 0 then
              (case getitem_slice c (Slice None (Some (- periods)) None) of
                 Inl e \<Rightarrow> Inl e
               | Inr b \<Rightarrow>
                   concat_same_type
                     [astype_values fill_to_common empty', astype_values to_common b])
            else
              (case getitem_slice c (Slice (Some \<bar>periods\<bar>) None None) of
                 Inl e \<Rightarrow> Inl e
               | Inr a \<Rightarrow>
                   concat_same_type
                     [astype_values to_common a, astype_values fill_to_common empty']))"

subsection \<open>Buffers as shared objects\<close>

text \<open>
  A container object refers to two numpy arrays. The constructor from a dict keeps the
  arrays it is given, \<open>copy\<close> copies them only when \<open>deep\<close> is set, and \<open>shift\<close>
  calls \<open>self.copy()\<close> with the default \<open>deep=False\<close>. To see which arrays a
  result shares with its source, arrays live in a memory at addresses; every other
  result of \<open>shift\<close> is built in fresh arrays.
\<close>

record 'a memory =
  index_arrays :: "nat \<Rightarrow> nat \<times> nat list"
  value_arrays :: "nat \<Rightarrow> 'a list"
  next_free :: nat

record ragged_ref =
  start_indices_ref :: nat
  flat_array_ref :: nat

definition deref :: "'a memory \<Rightarrow> ragged_ref \<Rightarrow> 'a ragged" where
  "deref mem self =
     \<lparr>nbits = fst (index_arrays mem (start_indices_ref self)),
      start_indices = snd (index_arrays mem (start_indices_ref self)),
      flat_array = value_arrays mem (flat_array_ref self)\<rparr>"

definition allocate :: "'a memory \<Rightarrow> 'a ragged \<Rightarrow> 'a memory \<times> ragged_ref" where
  "allocate mem c =
     (mem\<lparr>index_arrays := (index_arrays mem)(next_free mem := (nbits c, start_indices c)),
          value_arrays := (value_arrays mem)(Suc (next_free mem) := flat_array c),
          next_free := next_free mem + 2\<rparr>,
      \<lparr>start_indices_ref = next_free mem, flat_array_ref = Suc (next_free mem)\<rparr>)"

definition copy_ref ::
  "'a::zero memory \<Rightarrow> ragged_ref \<Rightarrow> bool \<Rightarrow> pyerror + 'a memory \<times> ragged_ref"
where
  "copy_ref mem self deep =
     (case copy (deref mem self) deep of
        Inl e \<Rightarrow> Inl e
      | Inr r \<Rightarrow> if deep then Inr (allocate mem r) else Inr (mem, self))"

definition shift_ref ::
  "('a \<Rightarrow> 'a) \<Rightarrow> ('a \<Rightarrow> 'a) \<Rightarrow> 'a::zero memory \<Rightarrow> ragged_ref \<Rightarrow> int \<Rightarrow> 'a item \<Rightarrow>
   pyerror + 'a memory \<times> ragged_ref"
where
  "shift_ref to_common fill_to_common mem self periods fill_value =
     (if len (deref mem self) = 0 \<or> periods = 0 then copy_ref mem self False
      else
        (case shift to_common fill_to_common (deref mem self) periods fill_value of
           Inl e \<Rightarrow> Inl e
         | Inr r \<Rightarrow> Inr (allocate mem r)))"

subsection \<open>Element identity and unique\<close>

datatype 'a ragged_element = RaggedElement "'a item" | NanScalar

definition ragged_or_nan :: "'a item \<Rightarrow> 'a ragged_element" where
  "ragged_or_nan a = (if a = NaN then NanScalar else RaggedElement a)"

definition array_or_nan :: "'a ragged_element \<Rightarrow> 'a item" where
  "array_or_nan a = (case a of NanScalar \<Rightarrow> NaN | RaggedElement x \<Rightarrow> x)"

definition as_ragged_element_array :: "'a ragged \<Rightarrow> pyerror + 'a ragged_element list" where
  "as_ragged_element_array c =
     (case materialize c of Inl e \<Rightarrow> Inl e | Inr vs \<Rightarrow> Inr (map ragged_or_nan vs))"

text \<open>
  \<open>pandas.unique\<close>: a hash table filled in order, keeping the first occurrence of each
  value. Two wrapped elements are the same key when their arrays are equal; the table
  treats all NaN scalars as one key.
\<close>

fun unique_loop :: "'v list \<Rightarrow> 'v list \<Rightarrow> 'v list" where
  "unique_loop [] uniques = uniques"
| "unique_loop (v # vs) uniques =
     (if v \<in> set uniques then unique_loop vs uniques else unique_loop vs (uniques @ [v]))"

definition pandas_unique :: "'v list \<Rightarrow> 'v list" where
  "pandas_unique vs = unique_loop vs []"

definition unique :: "'a::zero ragged \<Rightarrow> pyerror + 'a ragged" where
  "unique c =
     (case as_ragged_element_array c of
        Inl e \<Rightarrow> Inl e
      | Inr elements \<Rightarrow> from_sequence (map array_or_nan (pandas_unique elements)))"

section \<open>Notions of the specification\<close>

text \<open>
  The closed form of what the constructor builds from a sequence of arrays and missing
  values: the start offsets are the running sums of the element lengths and the flat
  buffer is the concatenation of the arrays.
\<close>

fun starts :: "nat \<Rightarrow> nat list \<Rightarrow> nat list" where
  "starts acc [] = []"
| "starts acc (n # ns) = acc # starts (acc + n) ns"

definition payload :: "'a item \<Rightarrow> 'a list" where
  "payload v = (case v of Array xs \<Rightarrow> xs | _ \<Rightarrow> [])"

definition array_or_missing :: "'a item \<Rightarrow> bool" where
  "array_or_missing v = (case v of Object n w \<Rightarrow> False | _ \<Rightarrow> True)"

definition encode :: "'a item list \<Rightarrow> 'a ragged" where
  "encode data =
     \<lparr>nbits = pick_nbits [8, 16, 32, 64] 0 (sum_list (map item_len data)),
      start_indices = starts 0 (map item_len data),
      flat_array = concat (map payload data)\<rparr>"

text \<open>
  What an item of a source sequence comes back as: a non-empty array as itself, and
  a missing value or a zero-length array as the missing sentinel.
\<close>

definition reencoded :: "'a item \<Rightarrow> 'a item" where
  "reencoded v = (case v of Array xs \<Rightarrow> (if xs = [] then NaN else Array xs) | _ \<Rightarrow> NaN)"

text \<open>The logical element at position \<open>i\<close> of a container.\<close>

definition element :: "'a ragged \<Rightarrow> nat \<Rightarrow> 'a item" where
  "element c i =
     (let start = start_indices c ! i; stop = stop_offset c i
      in if start = stop then NaN else Array (value_range (flat_array c) start stop))"

definition elements :: "'a ragged \<Rightarrow> 'a item list" where
  "elements c = map (element c) [0 ..< len c]"

text \<open>
  Round trip, as the specification words it: the built container has one position per
  source item, and a position materializes to the array of its source item, or to a
  missing value when the source item is missing.
\<close>

definition reproduced :: "'a item \<Rightarrow> pyerror + 'a item \<Rightarrow> bool" where
  "reproduced src got =
     (case got of
        Inl e \<Rightarrow> False
      | Inr g \<Rightarrow> (if missing src then missing g else g = src))"

definition round_trip :: "'a::zero item list \<Rightarrow> bool" where
  "round_trip data =
     (case from_sequence data of
        Inl e \<Rightarrow> False
      | Inr c \<Rightarrow>
          len c = length data \<and>
          list_all (\<lambda>i. reproduced (data ! i) (getitem c (int i))) [0 ..< length data])"

text \<open>Invariant A: every offset is at most the length of the values buffer.\<close>

definition invariant_A :: "'a ragged \<Rightarrow> bool" where
  "invariant_A c = list_all (\<lambda>s. s \<le> length (flat_array c)) (start_indices c)"

text \<open>The positions at which a boolean mask is true.\<close>

definition true_positions :: "bool list \<Rightarrow> nat list" where
  "true_positions m = filter (\<lambda>i. m ! i) [0 ..< length m]"

text \<open>
  Take with fill, as the specification words its testable property: taking \<open>[-1]\<close>
  with fill gives a container of one element that materializes to the fill value, or to
  a missing value when the fill value is missing.
\<close>

definition take_fill_property :: "'a::zero ragged \<Rightarrow> 'a item \<Rightarrow> bool" where
  "take_fill_property c x =
     (case take_ragged c [- 1] True x of
        Inl e \<Rightarrow> False
      | Inr r \<Rightarrow> len r = 1 \<and> reproduced x (getitem r 0))"

text \<open>
  The containers that the public operations can produce: construction from a sequence
  or from a raw pair, duplication, copy, access by slice and by mask, take,
  concatenation, \<open>fillna\<close>, \<open>shift\<close> and \<open>unique\<close>, each applied to containers
  that were produced in this way.
\<close>

inductive reachable :: "'a::zero ragged \<Rightarrow> bool" where
  from_seq: "RaggedArray (Sequence data) = Inr r \<Longrightarrow> reachable r"
| from_pair: "RaggedArray (Dict si fa) = Inr r \<Longrightarrow> reachable r"
| duplicated: "reachable c \<Longrightarrow> RaggedArray (Other c) = Inr r \<Longrightarrow> reachable r"
| copied: "reachable c \<Longrightarrow> copy c deep = Inr r \<Longrightarrow> reachable r"
| by_slice: "reachable c \<Longrightarrow> getitem_slice c item = Inr r \<Longrightarrow> reachable r"
| by_mask: "reachable c \<Longrightarrow> getitem_mask c msk = Inr r \<Longrightarrow> reachable r"
| taken:
    "reachable c \<Longrightarrow> take_ragged c indices allow_fill fill_value = Inr r \<Longrightarrow> reachable r"
| concatenated:
    "\<forall>c \<in> set to_concat. reachable c \<Longrightarrow> concat_same_type to_concat = Inr r \<Longrightarrow>
     reachable r"
| filled: "reachable c \<Longrightarrow> fillna np_write c val method limit = Inr r \<Longrightarrow> reachable r"
| shifted:
    "reachable c \<Longrightarrow> shift to_common fill_to_common c periods fill_value = Inr r \<Longrightarrow>
     reachable r"
| uniqued: "reachable c \<Longrightarrow> unique c = Inr r \<Longrightarrow> reachable r"

text \<open>
  Unique, as the specification words it: the result holds each distinct element of the
  container once (all missing entries being one element), in the order of first
  occurrence.
\<close>

definition first_occurrences :: "'v list \<Rightarrow> 'v list" where
  "first_occurrences xs = rev (remdups (rev xs))"

definition unique_property :: "'a::zero ragged \<Rightarrow> bool" where
  "unique_property c =
     (case unique c of
        Inl e \<Rightarrow> False
      | Inr r \<Rightarrow> elements r = first_occurrences (elements c))"

text \<open>
  Shift, as the specification words it: position \<open>i\<close> of the result holds the element
  that was at position \<open>i - periods\<close>, and the fill where there is no such position.
\<close>

definition shift_spec :: "'v list \<Rightarrow> int \<Rightarrow> 'v \<Rightarrow> 'v list" where
  "shift_spec xs periods fill =
     map (\<lambda>i. if 0 \<le> int i - periods \<and> int i - periods < int (length xs)
              then xs ! nat (int i - periods) else fill)
       [0 ..< length xs]"

text \<open>
  A deep copy has the contents of its source in arrays of its own.
\<close>

definition deep_copy_of ::
  "'a memory \<Rightarrow> ragged_ref \<Rightarrow> 'a memory \<times> ragged_ref \<Rightarrow> bool"
where
  "deep_copy_of mem self res =
     (deref (fst res) (snd res) = deref mem self
      \<and> start_indices_ref (snd res) \<noteq> start_indices_ref self
      \<and> flat_array_ref (snd res) \<noteq> flat_array_ref self)"

text \<open>
  An element with its values converted.
\<close>

definition cast_item :: "('a \<Rightarrow> 'a) \<Rightarrow> 'a item \<Rightarrow> 'a item" where
  "cast_item f v = (case v of Array xs \<Rightarrow> Array (map f xs) | _ \<Rightarrow> v)"

text \<open>
  The two containers that \<open>shift\<close> concatenates, and the condition under which the
  concatenation changes no offset: an offset plus the running offset of its container
  stays below \<open>2 ^ w\<close> for the width \<open>w\<close> of the sum.
\<close>

definition shift_operands :: "'a ragged \<Rightarrow> int \<Rightarrow> 'a item \<Rightarrow> 'a ragged \<times> 'a ragged" where
  "shift_operands c periods fill_value =
     (let k = min (nat \<bar>periods\<bar>) (len c);
          fills = encode (replicate k fill_value)
      in if 0 < periods then (fills, encode (take (len c - k) (elements c)))
         else (encode (drop k (elements c)), fills))"

definition offsets_kept_at :: "nat \<Rightarrow> nat list \<Rightarrow> nat \<Rightarrow> bool" where
  "offsets_kept_at w xs offset =
     list_all (\<lambda>x. x + offset < 2 ^ max w (min_scalar_bits offset)) xs"

definition offsets_kept :: "'a ragged \<Rightarrow> 'a ragged \<Rightarrow> bool" where
  "offsets_kept a b =
     (offsets_kept_at (nbits a) (start_indices a) 0
      \<and> offsets_kept_at (nbits b) (start_indices b) (length (flat_array a)))"

definition offsets_fit :: "'a ragged \<Rightarrow> int \<Rightarrow> 'a item \<Rightarrow> bool" where
  "offsets_fit c periods fill_value =
     (case shift_operands c periods fill_value of (a, b) \<Rightarrow> offsets_kept a b)"

text \<open>
  Access by mask, as the claim words it: the result holds, in order, the elements at
  the true positions of the mask.
\<close>

definition mask_property :: "'a::zero ragged \<Rightarrow> bool list \<Rightarrow> bool" where
  "mask_property c m =
     (case getitem_mask c m of
        Inl e \<Rightarrow> False
      | Inr r \<Rightarrow> elements r = map (element c) (true_positions m))"

section \<open>Theorems\<close>

lemma np_slice_value_range: "np_slice xs lo hi = value_range xs lo hi"
  unfolding np_slice_def value_range_def
  by (rule nth_equalityI) (auto simp: min_def split: if_splits)

lemma norm_index:
  "\<not> (i < - int n \<or> int n \<le> i) \<Longrightarrow> (if i < 0 then int n + i else i) = i mod int n"
proof (cases "i < 0")
  case True
  assume "\<not> (i < - int n \<or> int n \<le> i)"
  with True have "0 \<le> int n + i" "int n + i < int n" by auto
  then have "(int n + i) mod int n = int n + i" by (rule mod_pos_pos_trivial)
  then show ?thesis using True by simp
next
  case False
  assume "\<not> (i < - int n \<or> int n \<le> i)"
  with False show ?thesis by simp
qed

lemma getitem_eq_positional_access: "getitem c i = positional_access c i"
proof (cases "i < - int (len c) \<or> int (len c) \<le> i")
  case True
  then show ?thesis by (auto simp: getitem_def positional_access_def)
next
  case False
  note m = norm_index[OF False]
  define p where "p = nat (i mod int (len c))"
  have p: "i mod int (len c) = int p" "p < len c"
    using False m by (auto simp: p_def split: if_splits)
  have s: "(int p + 1 \<le> int (len c) - 1) = (Suc p < len c)" by auto
  have n: "nat (int p + 1) = Suc p" by simp
  show ?thesis
    using False
    unfolding getitem_def positional_access_def m Let_def stop_offset_def
      np_slice_value_range p s n
    by (simp add: eq_commute)
qed

text \<open>
  C2. Positional access: an index outside \<open>[-N, N)\<close> fails with the bounds error;
  otherwise negative indices count from the end and the result is the slice of the
  values buffer from \<open>offsets[i]\<close> to \<open>stop_i\<close> (the next offset, or the length
  of the values buffer at the last position), except that equal start and stop give the
  missing sentinel.
\<close>

theorem getitem_positional: "getitem c i = positional_access c i"
  by (rule getitem_eq_positional_access)

subsection \<open>The constructor on a sequence\<close>

lemma length_starts [simp]: "length (starts acc ns) = length ns"
  by (induction ns arbitrary: acc) auto

lemma nth_starts: "i < length ns \<Longrightarrow> starts acc ns ! i = acc + sum_list (take i ns)"
proof (induction ns arbitrary: acc i)
  case Nil then show ?case by simp
next
  case (Cons n ns)
  then show ?case by (cases i) auto
qed

lemma starts_le: "x \<in> set (starts acc ns) \<Longrightarrow> x \<le> acc + sum_list ns"
proof (induction ns arbitrary: acc)
  case Nil then show ?case by simp
next
  case (Cons n ns)
  then show ?case by fastforce
qed

lemma assign_slice_length: "assign_slice fa lo n v = Inr fa' \<Longrightarrow> length fa' = length fa"
  by (cases v) (auto split: if_splits option.splits)

lemma populate_starts:
  "populate data i nxt si fa = Inr (si', fa') \<Longrightarrow> i + length data \<le> length si \<Longrightarrow>
   si' = take i si @ starts nxt (map item_len data) @ drop (i + length data) si
   \<and> length fa' = length fa"
proof (induction data arbitrary: i nxt si fa)
  case Nil
  then show ?case by simp
next
  case (Cons v data)
  from Cons.prems(1) obtain fa1 where
    a: "assign_slice fa nxt (item_len v) v = Inr fa1" and
    p: "populate data (Suc i) (nxt + item_len v) (si[i := nxt]) fa1 = Inr (si', fa')"
    by (auto simp: Let_def split: sum.splits)
  from Cons.prems(2) have l: "Suc i + length data \<le> length (si[i := nxt])" by simp
  from Cons.IH[OF p l] have
    s: "si' = take (Suc i) (si[i := nxt]) @ starts (nxt + item_len v) (map item_len data)
              @ drop (Suc i + length data) (si[i := nxt])"
    and f: "length fa' = length fa1" by auto
  have t: "take (Suc i) (si[i := nxt]) = take i si @ [nxt]"
    using Cons.prems(2) by (simp add: take_Suc_conv_app_nth)
  have d: "drop (Suc i + length data) (si[i := nxt]) = drop (i + length (v # data)) si"
    by simp
  show ?case using s f t d assign_slice_length[OF a] by simp
qed

lemma item_len_payload: "array_or_missing v \<Longrightarrow> item_len v = length (payload v)"
  by (cases v) (auto simp: item_len_def payload_def array_or_missing_def missing_def)

lemma assign_slice_payload:
  "array_or_missing v \<Longrightarrow> lo + item_len v \<le> length fa \<Longrightarrow>
   assign_slice fa lo (item_len v) v = Inr (take lo fa @ payload v @ drop (lo + item_len v) fa)"
  by (cases v) (auto simp: item_len_def payload_def array_or_missing_def missing_def)

lemma populate_encode:
  "list_all array_or_missing data \<Longrightarrow> i + length data \<le> length si \<Longrightarrow>
   nxt + sum_list (map item_len data) \<le> length fa \<Longrightarrow>
   populate data i nxt si fa =
     Inr (take i si @ starts nxt (map item_len data) @ drop (i + length data) si,
          take nxt fa @ concat (map payload data) @ drop (nxt + sum_list (map item_len data)) fa)"
proof (induction data arbitrary: i nxt si fa)
  case Nil
  then show ?case by simp
next
  case (Cons v data)
  let ?n = "item_len v"
  let ?fa1 = "take nxt fa @ payload v @ drop (nxt + ?n) fa"
  from Cons.prems have pv: "array_or_missing v" and pd: "list_all array_or_missing data" by auto
  from Cons.prems(3) have b: "nxt + ?n \<le> length fa" by simp
  have a: "assign_slice fa nxt ?n v = Inr ?fa1" by (rule assign_slice_payload[OF pv b])
  have lf: "length ?fa1 = length fa" using b item_len_payload[OF pv] by simp
  have l: "Suc i + length data \<le> length (si[i := nxt])" using Cons.prems(2) by simp
  have m: "nxt + ?n + sum_list (map item_len data) \<le> length ?fa1"
    using Cons.prems(3) lf by simp
  have t: "take (Suc i) (si[i := nxt]) = take i si @ [nxt]"
    using Cons.prems(2) by (simp add: take_Suc_conv_app_nth)
  have t2: "take (nxt + ?n) ?fa1 = take nxt fa @ payload v"
    using b item_len_payload[OF pv] by simp
  have d2: "drop (nxt + ?n + sum_list (map item_len data)) ?fa1
            = drop (nxt + sum_list (map item_len (v # data))) fa"
    using b item_len_payload[OF pv] by (simp add: ac_simps)
  show ?case
    unfolding populate.simps Let_def a sum.case Cons.IH[OF pd l m] t t2 d2
    by simp
qed


lemma from_sequence_encode:
  "list_all array_or_missing data \<Longrightarrow> from_sequence data = Inr (encode data)"
  unfolding from_sequence_def RaggedArray.simps Let_def
  by (subst populate_encode) (auto simp: encode_def)

lemma start_indices_encode [simp]:
  "start_indices (encode data) = starts 0 (map item_len data)"
  by (simp add: encode_def)

lemma flat_array_encode [simp]: "flat_array (encode data) = concat (map payload data)"
  by (simp add: encode_def)

lemma len_encode [simp]: "len (encode data) = length data"
  by (simp add: len_def)

lemma concat_slice:
  "i < length xss \<Longrightarrow>
   take (length (xss ! i)) (drop (sum_list (map length (take i xss))) (concat xss)) = xss ! i"
proof (induction xss arbitrary: i)
  case Nil then show ?case by simp
next
  case (Cons xs xss)
  then show ?case by (cases i) auto
qed

lemma sum_take_Suc:
  "i < length ns \<Longrightarrow> sum_list (take (Suc i) ns) = sum_list (take i ns) + (ns ! i :: nat)"
  by (simp add: take_Suc_conv_app_nth)

lemma map_item_len_payload:
  "list_all array_or_missing data \<Longrightarrow> map item_len data = map length (map payload data)"
  by (induction data) (auto simp: item_len_payload)

lemma reencoded_payload:
  "array_or_missing v \<Longrightarrow> reencoded v = (if item_len v = 0 then NaN else Array (payload v))"
  by (cases v) (auto simp: reencoded_def item_len_def payload_def array_or_missing_def missing_def)

lemma getitem_encode:
  assumes pl: "list_all array_or_missing data" and i: "i < length data"
  shows "getitem (encode data) (int i) = Inr (reencoded (data ! i))"
proof -
  let ?lens = "map item_len data"
  let ?xss = "map payload data"
  have lens: "?lens = map length ?xss" by (rule map_item_len_payload[OF pl])
  have st: "start_indices (encode data) ! i = sum_list (take i ?lens)"
    using i by (simp add: nth_starts)
  have total: "length (flat_array (encode data)) = sum_list ?lens"
    by (simp add: length_concat lens)
  have en: "(if int i + 1 \<le> int (len (encode data)) - 1
             then start_indices (encode data) ! nat (int i + 1)
             else length (flat_array (encode data))) = sum_list (take (Suc i) ?lens)"
  proof (cases "Suc i < length data")
    case True
    then show ?thesis by (simp add: nth_starts nat_add_distrib)
  next
    case False
    with i have "Suc i = length data" by simp
    then show ?thesis using total by (simp del: flat_array_encode)
  qed
  have split: "sum_list (take (Suc i) ?lens) = sum_list (take i ?lens) + item_len (data ! i)"
    using i by (simp add: sum_take_Suc)
  have sl: "np_slice (flat_array (encode data)) (sum_list (take i ?lens))
              (sum_list (take i ?lens) + item_len (data ! i)) = payload (data ! i)"
  proof -
    have "take (length (?xss ! i)) (drop (sum_list (map length (take i ?xss))) (concat ?xss))
          = ?xss ! i"
      using i by (intro concat_slice) simp
    moreover have "length (?xss ! i) = item_len (data ! i)"
      using i pl by (simp add: item_len_payload list_all_length)
    moreover have "map length (take i ?xss) = take i ?lens"
      by (simp add: lens take_map)
    ultimately show ?thesis using i by (simp add: np_slice_def)
  qed
  have pv: "array_or_missing (data ! i)" using pl i by (simp add: list_all_length)
  have r: "nat (int i) = i" by simp
  have inb: "\<not> (int i < - int (len (encode data)) \<or> int i \<ge> int (len (encode data)))"
    using i by simp
  have neg: "\<not> int i < 0" by simp
  show ?thesis
    unfolding getitem_def Let_def if_not_P[OF inb] if_not_P[OF neg] en r st split sl
      reencoded_payload[OF pv]
    by simp
qed

lemma collect_Inr: "collect (map Inr xs) = Inr xs"
  by (induction xs) auto

lemma materialize_encode:
  assumes "list_all array_or_missing data"
  shows "materialize (encode data) = Inr (map reencoded data)"
proof -
  have "map (\<lambda>i. getitem (encode data) (int i)) [0 ..< length data]
        = map Inr (map reencoded data)"
    by (rule nth_equalityI) (auto simp: getitem_encode[OF assms])
  then show ?thesis by (simp add: materialize_def collect_Inr del: map_map)
qed

lemma getitem_element: "i < len c \<Longrightarrow> getitem c (int i) = Inr (element c i)"
  unfolding getitem_eq_positional_access positional_access_def element_def Let_def
  by simp

lemma materialize_elements: "materialize c = Inr (elements c)"
proof -
  have "map (\<lambda>i. getitem c (int i)) [0 ..< len c] = map Inr (elements c)"
    unfolding elements_def by (rule nth_equalityI) (auto simp: getitem_element)
  then show ?thesis by (simp add: materialize_def collect_Inr del: map_map)
qed

lemma element_array_or_missing: "array_or_missing (element c i)"
  by (simp add: element_def array_or_missing_def Let_def)

lemma elements_array_or_missing: "list_all array_or_missing (elements c)"
  by (simp add: elements_def list_all_iff element_array_or_missing)

lemma reencoded_reproduced:
  "array_or_missing v \<Longrightarrow> v \<noteq> Array [] \<Longrightarrow> reproduced v (Inr (reencoded v))"
  by (cases v) (auto simp: reproduced_def reencoded_def missing_def array_or_missing_def)

subsection \<open>Round trip\<close>

text \<open>
  C1. Round trip. Building a container from a sequence of arrays and missing values and
  materializing every position gives back each non-empty array and gives the missing
  sentinel for each missing item; a zero-length array comes back as the missing sentinel
  too. So the round trip of the specification holds for the sequences with no
  zero-length array, and fails on \<open>[[]]\<close>.
\<close>

theorem round_trip_nonempty:
  assumes "list_all array_or_missing data"
  shows "(\<exists>c. from_sequence data = Inr c \<and> len c = length data
              \<and> materialize c = Inr (map reencoded data))
         \<and> (Array [] \<notin> set data \<longrightarrow> round_trip data)"
proof (intro conjI impI)
  show "\<exists>c. from_sequence data = Inr c \<and> len c = length data
            \<and> materialize c = Inr (map reencoded data)"
    using from_sequence_encode[OF assms] materialize_encode[OF assms] by simp
next
  assume ne: "Array [] \<notin> set data"
  have "reproduced (data ! i) (getitem (encode data) (int i))" if "i < length data" for i
  proof -
    have "array_or_missing (data ! i)"
      using assms that by (simp add: list_all_length)
    moreover have "data ! i \<noteq> Array []"
      using ne nth_mem[OF that] by metis
    ultimately have "reproduced (data ! i) (Inr (reencoded (data ! i)))"
      by (rule reencoded_reproduced)
    then show ?thesis
      using getitem_encode[OF assms that] by simp
  qed
  then show "round_trip data"
    by (simp add: round_trip_def from_sequence_encode[OF assms] list_all_iff)
qed

theorem round_trip_zero_length_counterexample:
  "\<not> round_trip [Array ([] :: int list)]"
  by (simp add: round_trip_def from_sequence_def Let_def item_len_def missing_def
      getitem_def len_def reproduced_def)

theorem round_trip_nonempty_witness:
  "round_trip [Array [1, 2], Array [3], PyNone, Array [4, 5, 6 :: int]]"
  using round_trip_nonempty[of "[Array [1, 2], Array [3], PyNone, Array [4, 5, 6 :: int]]"]
  by (simp add: array_or_missing_def)

subsection \<open>Access by boolean mask\<close>

lemma from_sequence_elements:
  "from_sequence (map (element c) is) = Inr (encode (map (element c) is))"
  by (rule from_sequence_encode) (simp add: list_all_iff element_array_or_missing)

lemma enumerate_true_positions:
  "map fst (filter snd (enumerate 0 m)) = true_positions m"
proof (induction m rule: rev_induct)
  case Nil
  then show ?case by (simp add: true_positions_def)
next
  case (snoc b m)
  have "filter (\<lambda>i. (m @ [b]) ! i) [0 ..< length m] = filter (\<lambda>i. m ! i) [0 ..< length m]"
    by (rule filter_cong) (auto simp: nth_append)
  then show ?case
    using snoc by (simp add: enumerate_append_eq true_positions_def)
qed

lemma mask_comprehension:
  "map (\<lambda>(i, b). getitem c (int i)) (filter snd (enumerate 0 m))
   = map (\<lambda>i. getitem c (int i)) (true_positions m)"
proof -
  have "map (\<lambda>(i, b). getitem c (int i)) (filter snd (enumerate 0 m))
        = map (\<lambda>i. getitem c (int i)) (map fst (filter snd (enumerate 0 m)))"
    by (simp add: case_prod_unfold)
  then show ?thesis by (simp only: enumerate_true_positions)
qed

lemma true_positions_bound: "i \<in> set (true_positions m) \<Longrightarrow> i < length m"
  by (simp add: true_positions_def)

lemma collect_getitem:
  assumes "\<And>i. i \<in> set is \<Longrightarrow> i < len c"
  shows "collect (map (\<lambda>i. getitem c (int i)) is) = Inr (map (element c) is)"
proof -
  have "map (\<lambda>i. getitem c (int i)) is = map Inr (map (element c) is)"
    using assms by (simp add: getitem_element)
  then show ?thesis by (simp only: collect_Inr)
qed

subsection \<open>Take\<close>

lemma collect_map_Inr: "collect (map (\<lambda>x. Inr (f x)) xs) = Inr (map f xs)"
  by (induction xs) auto

lemma collect_first_error:
  assumes "\<exists>r \<in> set rs. \<exists>e'. r = Inl e'" and "\<And>e'. Inl e' \<in> set rs \<Longrightarrow> e' = e"
  shows "collect rs = Inl e"
  using assms
proof (induction rs)
  case Nil
  then show ?case by simp
next
  case (Cons r rs)
  show ?case
  proof (cases r)
    case (Inl e')
    then show ?thesis using Cons.prems(2)[of e'] by simp
  next
    case (Inr x)
    then have "collect rs = Inl e" using Cons by auto
    then show ?thesis using Inr by simp
  qed
qed

lemma getitem_error: "getitem c i = Inl e \<Longrightarrow> e = IndexError"
  unfolding getitem_def Let_def by (simp split: if_splits)

lemma getitem_out_of_range: "int (len c) \<le> i \<Longrightarrow> getitem c i = Inl IndexError"
  unfolding getitem_def by simp

lemma take_fill_lookup:
  assumes "- 1 \<le> i" "i < int (len c)"
  shows "(if i \<ge> 0 then getitem c i else Inr x)
         = Inr (if i = - 1 then x else element c (nat i))"
proof (cases "i \<ge> 0")
  case True
  then have "getitem c (int (nat i)) = Inr (element c (nat i))"
    using assms by (intro getitem_element) simp
  then show ?thesis using True by simp
next
  case False
  then show ?thesis using assms by simp
qed

lemma take_fill_ok:
  assumes x: "array_or_missing x"
    and r: "\<And>i. i \<in> set indices \<Longrightarrow> - 1 \<le> i \<and> i < int (len c)"
  shows "take_ragged c indices True x
         = Inr (encode (map (\<lambda>i. if i = - 1 then x else element c (nat i)) indices))"
proof -
  let ?seq = "map (\<lambda>i. if i = - 1 then x else element c (nat i)) indices"
  have f: "filter (\<lambda>i. i < - 1) indices = []"
    using r by (fastforce simp: filter_empty_conv)
  have "map (\<lambda>i. if i \<ge> 0 then getitem c i else Inr x) indices
        = map (\<lambda>i. Inr (if i = - 1 then x else element c (nat i))) indices"
    using r by (intro map_cong refl take_fill_lookup) auto
  then have c: "collect (map (\<lambda>i. if i \<ge> 0 then getitem c i else Inr x) indices) = Inr ?seq"
    by (simp only: collect_map_Inr)
  have p: "list_all array_or_missing ?seq"
    using x by (induction indices) (simp_all add: element_array_or_missing)
  show ?thesis
    unfolding take_ragged_def Let_def f c
    using from_sequence_encode[OF p] by (simp add: from_sequence_def)
qed

text \<open>
  C7. Take with fill. Any index below \<open>-1\<close> makes take fail with the value error that
  lists the offending indices, at most the first nine. Otherwise an index \<open>-1\<close> yields
  the fill value and a non-negative index is an ordinary positional lookup (a bounds
  error when it is out of range); the container built from these items materializes
  each as itself, except that a zero-length array, as fill value or as looked-up
  element, materializes as the missing sentinel, as a missing fill value does. So
  \<open>take(c, [-1], allow_fill=True, fill_value=X)\<close> has one element, which materializes
  to \<open>X\<close> for a non-empty array and to the missing sentinel otherwise.
\<close>

theorem take_with_fill:
  assumes "array_or_missing x"
  shows "(list_ex (\<lambda>i. i < - 1) indices \<longrightarrow>
            take_ragged c indices True x
            = Inl (ValueError_take (take 9 (filter (\<lambda>i. i < - 1) indices))))
       \<and> (list_all (\<lambda>i. - 1 \<le> i) indices \<and> list_ex (\<lambda>i. int (len c) \<le> i) indices \<longrightarrow>
            take_ragged c indices True x = Inl IndexError)
       \<and> (list_all (\<lambda>i. - 1 \<le> i \<and> i < int (len c)) indices \<longrightarrow>
            (\<exists>r. take_ragged c indices True x = Inr r \<and> len r = length indices
               \<and> materialize r
                 = Inr (map (\<lambda>i. reencoded (if i = - 1 then x else element c (nat i))) indices)))
       \<and> (\<exists>r. take_ragged c [- 1] True x = Inr r \<and> len r = 1
               \<and> materialize r = Inr [reencoded x])
       \<and> (x \<noteq> Array [] \<longrightarrow> take_fill_property c x)"
proof (intro conjI impI)
  assume "list_ex (\<lambda>i. i < - 1) indices"
  then have "filter (\<lambda>i. i < - 1) indices \<noteq> []"
    by (auto simp: list_ex_iff filter_empty_conv)
  then show "take_ragged c indices True x
             = Inl (ValueError_take (take 9 (filter (\<lambda>i. i < - 1) indices)))"
    by (simp add: take_ragged_def Let_def)
next
  assume a: "list_all (\<lambda>i. - 1 \<le> i) indices \<and> list_ex (\<lambda>i. int (len c) \<le> i) indices"
  let ?rs = "map (\<lambda>i. if i \<ge> 0 then getitem c i else Inr x) indices"
  from a have f: "filter (\<lambda>i. i < - 1) indices = []"
    by (auto simp: list_all_iff filter_empty_conv)
  from a obtain j where j: "j \<in> set indices" "int (len c) \<le> j"
    by (auto simp: list_ex_iff)
  then have "(if j \<ge> 0 then getitem c j else Inr x) = Inl IndexError"
    using getitem_out_of_range[of c j] by simp
  then have "Inl IndexError \<in> (\<lambda>i. if i \<ge> 0 then getitem c i else Inr x) ` set indices"
    using j(1) by (rule rev_image_eqI[OF _ sym, rotated])
  then have "Inl IndexError \<in> set ?rs" by simp
  then have e: "\<exists>r \<in> set ?rs. \<exists>e'. r = Inl e'" by blast
  have o: "e' = IndexError" if "Inl e' \<in> set ?rs" for e'
  proof -
    from that have "\<exists>i. getitem c i = Inl e'"
      by (auto split: if_splits intro: sym)
    then obtain i where "getitem c i = Inl e'" ..
    then show ?thesis by (rule getitem_error)
  qed
  have "collect ?rs = Inl IndexError" by (rule collect_first_error[OF e o])
  then show "take_ragged c indices True x = Inl IndexError"
    by (simp add: take_ragged_def Let_def f)
next
  assume a: "list_all (\<lambda>i. - 1 \<le> i \<and> i < int (len c)) indices"
  let ?seq = "map (\<lambda>i. if i = - 1 then x else element c (nat i)) indices"
  have t: "take_ragged c indices True x = Inr (encode ?seq)"
    using a by (intro take_fill_ok assms) (simp add: list_all_iff)
  have p: "list_all array_or_missing ?seq"
    using assms by (induction indices) (simp_all add: element_array_or_missing)
  show "\<exists>r. take_ragged c indices True x = Inr r \<and> len r = length indices
          \<and> materialize r
            = Inr (map (\<lambda>i. reencoded (if i = - 1 then x else element c (nat i))) indices)"
    using t materialize_encode[OF p] by (simp add: comp_def)
next
  have t: "take_ragged c [- 1] True x = Inr (encode [x])"
    using take_fill_ok[OF assms, of "[- 1]" c] by simp
  have "materialize (encode [x]) = Inr (map reencoded [x])"
    by (rule materialize_encode) (simp add: assms)
  then show "\<exists>r. take_ragged c [- 1] True x = Inr r \<and> len r = 1
               \<and> materialize r = Inr [reencoded x]"
    using t by simp
next
  assume ne: "x \<noteq> Array []"
  have t: "take_ragged c [- 1] True x = Inr (encode [x])"
    using take_fill_ok[OF assms, of "[- 1]" c] by simp
  have "getitem (encode [x]) (int 0) = Inr (reencoded ([x] ! 0))"
    by (rule getitem_encode) (simp_all add: assms)
  then show "take_fill_property c x"
    using t reencoded_reproduced[OF assms ne] by (simp add: take_fill_property_def)
qed

theorem take_with_fill_witness:
  "take_ragged \<lparr>nbits = 8, start_indices = [0, 2], flat_array = [1, 2, 3 :: int]\<rparr>
     [- 1] True (Array [7])
   = Inr \<lparr>nbits = 8, start_indices = [0], flat_array = [7]\<rparr>
   \<and> take_fill_property \<lparr>nbits = 8, start_indices = [0, 2], flat_array = [1, 2, 3 :: int]\<rparr>
       (Array [7])"
  using take_with_fill[of "Array [7 :: int]" "[]"
      "\<lparr>nbits = 8, start_indices = [0, 2], flat_array = [1, 2, 3 :: int]\<rparr>"]
  by (simp add: array_or_missing_def take_ragged_def from_sequence_def Let_def item_len_def
      missing_def)

theorem take_fill_zero_length_counterexample:
  "\<not> take_fill_property \<lparr>nbits = 8, start_indices = [0, 2], flat_array = [1, 2, 3 :: int]\<rparr>
       (Array [])"
  by (simp add: take_fill_property_def take_ragged_def from_sequence_def Let_def item_len_def
      missing_def getitem_def len_def reproduced_def)

subsection \<open>Invariant A\<close>

lemma validate_invariant_A:
  assumes "validate_ragged_properties (Ndarray k b d si) (Values d' fa) = Inr u"
  shows "list_all (\<lambda>s. s \<le> length fa) si"
proof -
  have "True \<notin> set (map (\<lambda>s. s > length fa) si)"
    using assms
    by (simp add: validate_ragged_properties_def Let_def split: if_splits sum.splits)
  then show ?thesis by (auto simp: list_all_iff)
qed

lemma RaggedArray_Dict_invariant_A:
  assumes "RaggedArray (Dict si fa) = Inr r"
  shows "invariant_A r"
proof (cases si)
  case NotNdarray
  then show ?thesis using assms by (simp add: validate_ragged_properties_def)
next
  case (Ndarray k b d offs)
  show ?thesis
  proof (cases fa)
    case NotValues
    then show ?thesis using assms Ndarray
      by (simp add: validate_ragged_properties_def split: if_splits)
  next
    case (Values d' vals)
    from assms obtain u where v: "validate_ragged_properties si fa = Inr u"
      by (auto split: sum.splits)
    then have "r = \<lparr>nbits = b, start_indices = offs, flat_array = vals\<rparr>"
      using assms Ndarray Values by simp
    then show ?thesis
      using validate_invariant_A[OF v[unfolded Ndarray Values]] by (simp add: invariant_A_def)
  qed
qed

lemma RaggedArray_Sequence_invariant_A:
  assumes "RaggedArray (Sequence data) = Inr r"
  shows "invariant_A r"
proof -
  let ?total = "sum_list (map item_len data)"
  from assms obtain si fa where
    p: "populate data 0 0 (replicate (length data) 0) (replicate ?total 0) = Inr (si, fa)"
    and r: "start_indices r = si" "flat_array r = fa"
    by (auto simp: Let_def split: sum.splits)
  have "si = take 0 (replicate (length data) 0) @ starts 0 (map item_len data)
             @ drop (0 + length data) (replicate (length data) 0)
        \<and> length fa = length (replicate ?total (0::'a))"
    by (rule populate_starts[OF p]) simp
  then have s: "si = starts 0 (map item_len data)" and l: "length fa = ?total" by simp_all
  have "x \<le> length fa" if "x \<in> set si" for x
    using starts_le[of x 0 "map item_len data"] that s l by simp
  then show ?thesis by (simp add: invariant_A_def r list_all_iff)
qed

lemma RaggedArray_Other_invariant_A:
  "RaggedArray (Other c) = Inr r \<Longrightarrow> invariant_A c \<Longrightarrow> invariant_A r"
  by (auto simp: invariant_A_def)

lemma from_sequence_invariant_A: "from_sequence data = Inr r \<Longrightarrow> invariant_A r"
  unfolding from_sequence_def by (rule RaggedArray_Sequence_invariant_A)

lemma copy_invariant_A: "copy c deep = Inr r \<Longrightarrow> invariant_A r"
  unfolding copy_def by (rule RaggedArray_Dict_invariant_A)

lemma getitem_slice_invariant_A: "getitem_slice c item = Inr r \<Longrightarrow> invariant_A r"
  unfolding getitem_slice_def
  by (auto simp del: RaggedArray.simps split: sum.splits
      intro: RaggedArray_Sequence_invariant_A)

lemma getitem_mask_invariant_A: "getitem_mask c msk = Inr r \<Longrightarrow> invariant_A r"
  unfolding getitem_mask_def
  by (auto simp del: RaggedArray.simps split: sum.splits
      intro: RaggedArray_Sequence_invariant_A)

lemma take_ragged_invariant_A:
  "take_ragged c indices allow_fill fill_value = Inr r \<Longrightarrow> invariant_A r"
  unfolding take_ragged_def Let_def
  by (auto simp del: RaggedArray.simps split: sum.splits if_splits
      intro: RaggedArray_Sequence_invariant_A)

lemma concat_same_type_invariant_A: "concat_same_type to_concat = Inr r \<Longrightarrow> invariant_A r"
  unfolding concat_same_type_def Let_def
  by (auto simp del: RaggedArray.simps split: if_splits
      intro: RaggedArray_Dict_invariant_A)

lemma unique_invariant_A: "unique c = Inr r \<Longrightarrow> invariant_A r"
  unfolding unique_def
  by (auto split: sum.splits intro: from_sequence_invariant_A)

lemma shift_invariant_A: "shift f g c periods fill_value = Inr r \<Longrightarrow> invariant_A r"
  unfolding shift_def Let_def
  by (auto split: sum.splits if_splits
      intro: copy_invariant_A concat_same_type_invariant_A)

lemma fillna_invariant_A: "fillna np_write c val method limit = Inr r \<Longrightarrow> invariant_A r"
  unfolding fillna_def Let_def
  by (auto split: sum.splits if_splits option.splits
      intro: copy_invariant_A from_sequence_invariant_A)

text \<open>
  C3. Bounds invariant: every container reachable through the public operations
  satisfies Invariant A, every offset being at most the length of the values buffer.
\<close>

theorem reachable_invariant_A: "reachable c \<Longrightarrow> invariant_A c"
proof (induction rule: reachable.induct)
  case (from_seq data r)
  then show ?case by (rule RaggedArray_Sequence_invariant_A)
next
  case (from_pair si fa r)
  then show ?case by (rule RaggedArray_Dict_invariant_A)
next
  case (duplicated c r)
  then show ?case by (auto intro: RaggedArray_Other_invariant_A)
next
  case (copied c deep r)
  then show ?case by (auto intro: copy_invariant_A)
next
  case (by_slice c item r)
  then show ?case by (auto intro: getitem_slice_invariant_A)
next
  case (by_mask c msk r)
  then show ?case by (auto intro: getitem_mask_invariant_A)
next
  case (taken c indices allow_fill fill_value r)
  then show ?case by (auto intro: take_ragged_invariant_A)
next
  case (concatenated to_concat r)
  then show ?case by (auto intro: concat_same_type_invariant_A)
next
  case (filled c np_write val meth limit r)
  then show ?case by (auto intro: fillna_invariant_A)
next
  case (shifted c to_common fill_to_common periods fill_value r)
  then show ?case by (auto intro: shift_invariant_A)
next
  case (uniqued c r)
  then show ?case by (auto intro: unique_invariant_A)
qed


theorem reachable_invariant_A_witness:
  "reachable \<lparr>nbits = 8, start_indices = [0, 2, 3, 3], flat_array = [1, 2, 3, 4, 5, 6 :: int]\<rparr>
   \<and> invariant_A \<lparr>nbits = 8, start_indices = [0, 2, 3, 3],
                   flat_array = [1, 2, 3, 4, 5, 6 :: int]\<rparr>"
proof -
  have r: "reachable \<lparr>nbits = 8, start_indices = [0, 2, 3, 3],
                      flat_array = [1, 2, 3, 4, 5, 6 :: int]\<rparr>"
    by (rule reachable.from_seq[of "[Array [1, 2], Array [3], PyNone, Array [4, 5, 6]]"])
      (simp add: Let_def item_len_def missing_def)
  show ?thesis using r reachable_invariant_A[OF r] by simp
qed

subsection \<open>Concatenation\<close>

lemma concat_flat:
  "concat_same_type
     [\<lparr>nbits = 8, start_indices = [0], flat_array = replicate 255 (0::int)\<rparr>,
      \<lparr>nbits = 8, start_indices = [0], flat_array = [1]\<rparr>,
      \<lparr>nbits = 8, start_indices = [0, 1], flat_array = [2, 3]\<rparr>]
   = Inr \<lparr>nbits = 16, start_indices = [0, 255, 256, 257],
          flat_array = replicate 255 0 @ [1, 2, 3]\<rparr>"
  by (simp add: concat_same_type_def Let_def add_offset_def min_scalar_bits_def
      validate_ragged_properties_def)

lemma concat_inner:
  "concat_same_type
     [\<lparr>nbits = 8, start_indices = [0], flat_array = [1::int]\<rparr>,
      \<lparr>nbits = 8, start_indices = [0, 1], flat_array = [2, 3]\<rparr>]
   = Inr \<lparr>nbits = 8, start_indices = [0, 1, 2], flat_array = [1, 2, 3]\<rparr>"
  by (simp add: concat_same_type_def Let_def add_offset_def min_scalar_bits_def
      validate_ragged_properties_def)

lemma concat_nested:
  "concat_same_type
     [\<lparr>nbits = 8, start_indices = [0], flat_array = replicate 255 (0::int)\<rparr>,
      \<lparr>nbits = 8, start_indices = [0, 1, 2], flat_array = [1, 2, 3]\<rparr>]
   = Inr \<lparr>nbits = 8, start_indices = [0, 255, 0, 1],
          flat_array = replicate 255 0 @ [1, 2, 3]\<rparr>"
  by (simp add: concat_same_type_def Let_def add_offset_def min_scalar_bits_def
      validate_ragged_properties_def)

lemma getitem_flat:
  "getitem \<lparr>nbits = 16, start_indices = [0, 255, 256, 257],
            flat_array = replicate 255 (0::int) @ [1, 2, 3]\<rparr> 2 = Inr (Array [2])"
  by (simp add: getitem_def len_def np_slice_def)

lemma getitem_nested:
  "getitem \<lparr>nbits = 8, start_indices = [0, 255, 0, 1],
            flat_array = replicate 255 (0::int) @ [1, 2, 3]\<rparr> 2 = Inr (Array [0])"
  by (simp add: getitem_def len_def np_slice_def)

lemma from_seq_a:
  "from_sequence [Array (replicate 255 (0::int))]
   = Inr \<lparr>nbits = 8, start_indices = [0], flat_array = replicate 255 0\<rparr>"
  by (simp add: from_sequence_def Let_def item_len_def missing_def)


text \<open>
  C4. Concatenation associativity. The three groupings of a concatenation do not always
  materialize alike: the offsets of a source are shifted in the width of its own offsets
  array, and wrap around. For \<open>a = [[0] * 255]\<close>, \<open>b = [[1]]\<close>, \<open>c = [[2], [3]]\<close>
  (all with 8-bit offsets) \<open>concat([a, b, c])\<close> has the offsets
  \<open>[0, 255, 256, 257]\<close> and position 2 is \<open>[2]\<close>, while
  \<open>concat([a, concat([b, c])])\<close> has the offsets \<open>[0, 255, 0, 1]\<close> and position 2 is
  \<open>[0]\<close>.
\<close>

theorem concat_groupings_differ:
  "from_sequence [Array (replicate 255 (0::int))]
     = Inr \<lparr>nbits = 8, start_indices = [0], flat_array = replicate 255 0\<rparr>
   \<and> from_sequence [Array [1::int]]
     = Inr \<lparr>nbits = 8, start_indices = [0], flat_array = [1]\<rparr>
   \<and> from_sequence [Array [2::int], Array [3]]
     = Inr \<lparr>nbits = 8, start_indices = [0, 1], flat_array = [2, 3]\<rparr>
   \<and> concat_same_type
       [\<lparr>nbits = 8, start_indices = [0], flat_array = replicate 255 (0::int)\<rparr>,
        \<lparr>nbits = 8, start_indices = [0], flat_array = [1]\<rparr>,
        \<lparr>nbits = 8, start_indices = [0, 1], flat_array = [2, 3]\<rparr>]
     = Inr \<lparr>nbits = 16, start_indices = [0, 255, 256, 257],
            flat_array = replicate 255 0 @ [1, 2, 3]\<rparr>
   \<and> concat_same_type
       [\<lparr>nbits = 8, start_indices = [0], flat_array = [1::int]\<rparr>,
        \<lparr>nbits = 8, start_indices = [0, 1], flat_array = [2, 3]\<rparr>]
     = Inr \<lparr>nbits = 8, start_indices = [0, 1, 2], flat_array = [1, 2, 3]\<rparr>
   \<and> concat_same_type
       [\<lparr>nbits = 8, start_indices = [0], flat_array = replicate 255 (0::int)\<rparr>,
        \<lparr>nbits = 8, start_indices = [0, 1, 2], flat_array = [1, 2, 3]\<rparr>]
     = Inr \<lparr>nbits = 8, start_indices = [0, 255, 0, 1],
            flat_array = replicate 255 0 @ [1, 2, 3]\<rparr>
   \<and> getitem \<lparr>nbits = 16, start_indices = [0, 255, 256, 257],
               flat_array = replicate 255 (0::int) @ [1, 2, 3]\<rparr> 2 = Inr (Array [2])
   \<and> getitem \<lparr>nbits = 8, start_indices = [0, 255, 0, 1],
               flat_array = replicate 255 (0::int) @ [1, 2, 3]\<rparr> 2 = Inr (Array [0])"
  using from_seq_a concat_flat concat_inner concat_nested getitem_flat getitem_nested
  by (simp add: from_sequence_def Let_def item_len_def missing_def)

subsection \<open>Construction from a raw pair\<close>

text \<open>
  C8. Raw-pair construction. With more than ten offsets, one of them greater than the
  length of the values, the validation does not report the offending offsets: the mask
  of offending positions is cut to ten entries before it indexes the offsets, and the
  indexing fails. With the offsets \<open>[0, 0, 0, 0, 0, 0, 0, 0, 0, 0, 5]\<close> over three
  values the constructor ends in an \<open>IndexError\<close>; with the offending offset among
  ten offsets or fewer it ends in the value error that lists it.
\<close>

theorem raw_pair_offending_offsets_report:
  "RaggedArray (Dict (Ndarray CHR ''u'' 8 1 [0, 0, 0, 0, 0, 0, 0, 0, 0, 0, 5])
                     (Values 1 [1, 2, 3 :: int])) = Inl IndexError
   \<and> RaggedArray (Dict (Ndarray CHR ''u'' 8 1 [0, 9, 0, 7]) (Values 1 [1, 2, 3 :: int]))
     = Inl (ValueError_invalid [9, 7])"
  by (simp add: validate_ragged_properties_def np_bool_index_def Let_def)

subsection \<open>Filling missing values\<close>

lemma fillna_ragged_value_sequence:
  "fillna np_write
     \<lparr>nbits = 8, start_indices = [0, 2, 2], flat_array = [1, 2 :: int]\<rparr>
     (RaggedValue \<lparr>nbits = 8, start_indices = [0, 1, 2], flat_array = [7, 8, 9]\<rparr>)
     None None
   = from_sequence
       [Array [1, 2],
        Object 2 (np_write \<lparr>nbits = 8, start_indices = [0, 1], flat_array = [8, 9]\<rparr>),
        Object 2 (np_write \<lparr>nbits = 8, start_indices = [0, 1], flat_array = [8, 9]\<rparr>)]"
  by (simp add: fillna_def isna_def getitem_mask_def enumerate_eq_zip getitem_def len_def
      np_slice_def Let_def item_len_def missing_def materialize_def)
    (simp add: numeral_2_eq_2)

text \<open>
  C6. Fill with a container as the value. For \<open>c = [[1, 2], None, None]\<close> and the
  value \<open>[[7], [8], [9]]\<close> the specification asks for \<open>[[1, 2], [8], [9]]\<close>. The code
  reduces the value to its elements at the missing positions, \<open>[[8], [9]]\<close>, and then
  stores this whole container at each missing position of the sequence it hands to the
  constructor. Whatever numpy makes of such an item, the result is an error or a
  container with six values and the offsets \<open>[0, 2, 4]\<close>, never the container asked
  for.
\<close>

theorem fillna_ragged_value_whole_container:
  "(case fillna np_write
           \<lparr>nbits = 8, start_indices = [0, 2, 2], flat_array = [1, 2 :: int]\<rparr>
           (RaggedValue \<lparr>nbits = 8, start_indices = [0, 1, 2], flat_array = [7, 8, 9]\<rparr>)
           None None of
      Inl e \<Rightarrow> e = ValueError_numpy
    | Inr r \<Rightarrow> start_indices r = [0, 2, 4] \<and> length (flat_array r) = 6)
   \<and> from_sequence [Array [1, 2], Array [8], Array [9 :: int]]
     = Inr \<lparr>nbits = 8, start_indices = [0, 2, 3], flat_array = [1, 2, 8, 9]\<rparr>"
proof (cases "np_write \<lparr>nbits = 8, start_indices = [0, 1], flat_array = [8, 9 :: int]\<rparr>")
  case None
  then show ?thesis
    unfolding fillna_ragged_value_sequence
    by (simp add: from_sequence_def Let_def item_len_def missing_def)
next
  case (Some vs)
  then show ?thesis
    unfolding fillna_ragged_value_sequence
    by (simp add: from_sequence_def Let_def item_len_def missing_def)
qed

subsection \<open>Unique\<close>

lemma unique_loop_append:
  "unique_loop (xs @ ys) acc = unique_loop ys (unique_loop xs acc)"
  by (induction xs arbitrary: acc) auto

lemma set_unique_loop: "set (unique_loop xs acc) = set acc \<union> set xs"
  by (induction xs arbitrary: acc) auto

lemma pandas_unique_first_occurrences: "pandas_unique xs = first_occurrences xs"
proof (induction xs rule: rev_induct)
  case Nil
  then show ?case by (simp add: pandas_unique_def first_occurrences_def)
next
  case (snoc x xs)
  have "pandas_unique (xs @ [x]) = unique_loop [x] (pandas_unique xs)"
    by (simp add: pandas_unique_def unique_loop_append)
  moreover have "set (pandas_unique xs) = set xs"
    by (simp add: pandas_unique_def set_unique_loop)
  ultimately show ?case
    using snoc by (simp add: first_occurrences_def)
qed

lemma remdups_map_inj: "inj f \<Longrightarrow> remdups (map f xs) = map f (remdups xs)"
  by (induction xs) (auto simp: inj_image_mem_iff)

lemma first_occurrences_map:
  "inj f \<Longrightarrow> first_occurrences (map f xs) = map f (first_occurrences xs)"
  by (simp add: first_occurrences_def rev_map remdups_map_inj)

lemma distinct_first_occurrences: "distinct (first_occurrences xs)"
  by (simp add: first_occurrences_def)

lemma set_first_occurrences: "set (first_occurrences xs) = set xs"
  by (simp add: first_occurrences_def)

lemma inj_ragged_or_nan: "inj ragged_or_nan"
  by (rule injI) (auto simp: ragged_or_nan_def split: if_splits)

lemma array_or_nan_ragged_or_nan: "array_or_nan (ragged_or_nan v) = v"
  by (simp add: array_or_nan_def ragged_or_nan_def)

lemma unique_encode:
  "unique c = Inr (encode (first_occurrences (elements c)))"
proof -
  have a: "as_ragged_element_array c = Inr (map ragged_or_nan (elements c))"
    by (simp add: as_ragged_element_array_def materialize_elements)
  have "map array_or_nan (pandas_unique (map ragged_or_nan (elements c)))
        = first_occurrences (elements c)"
    by (simp add: pandas_unique_first_occurrences first_occurrences_map[OF inj_ragged_or_nan]
        comp_def array_or_nan_ragged_or_nan)
  moreover have "list_all array_or_missing (first_occurrences (elements c))"
    using elements_array_or_missing[of c]
    by (simp add: list_all_iff set_first_occurrences)
  ultimately show ?thesis
    by (simp add: unique_def a from_sequence_encode)
qed

lemma elements_encode:
  assumes "list_all array_or_missing data"
  shows "elements (encode data) = map reencoded data"
  using materialize_encode[OF assms] by (simp add: materialize_elements)

lemma reencoded_element: "element c i \<noteq> Array [] \<Longrightarrow> reencoded (element c i) = element c i"
  by (auto simp: element_def reencoded_def Let_def split: if_splits)

lemma reencoded_elements:
  assumes "Array [] \<notin> set (elements c)" "set xs \<subseteq> set (elements c)"
  shows "map reencoded xs = xs"
proof -
  have "reencoded v = v" if "v \<in> set xs" for v
  proof -
    from that assms(2) obtain i where "v = element c i" by (auto simp: elements_def)
    moreover have "v \<noteq> Array []" using that assms by auto
    ultimately show ?thesis by (simp add: reencoded_element)
  qed
  then show ?thesis by (simp add: map_idI)
qed

lemma sorted_offsets_no_zero_length:
  assumes s: "sorted (start_indices c)" and v: "invariant_A c"
  shows "Array [] \<notin> set (elements c)"
proof
  assume "Array [] \<in> set (elements c)"
  then obtain i where i: "i < len c" and e: "element c i = Array []"
    by (auto simp: elements_def)
  let ?start = "start_indices c ! i"
  let ?stop = "stop_offset c i"
  have ne: "?start \<noteq> ?stop" and em: "value_range (flat_array c) ?start ?stop = []"
    using e by (auto simp: element_def Let_def split: if_splits)
  have le: "?stop \<le> length (flat_array c)"
    using v by (auto simp: stop_offset_def invariant_A_def list_all_length len_def)
  have ge: "?start \<le> ?stop"
  proof (cases "Suc i < len c")
    case True
    then show ?thesis
      using s by (simp add: stop_offset_def len_def sorted_iff_nth_mono)
  next
    case False
    then show ?thesis
      using v i by (simp add: stop_offset_def invariant_A_def list_all_length len_def)
  qed
  from em have "min ?stop (length (flat_array c)) \<le> ?start"
    by (auto simp: value_range_def)
  then show False using ne le ge by simp
qed

lemma unique_no_zero_length:
  assumes ne: "Array [] \<notin> set (elements c)"
  shows "unique_property c"
    and "\<exists>r. unique c = Inr r \<and> distinct (elements r) \<and> set (elements r) = set (elements c)"
proof -
  have p: "list_all array_or_missing (first_occurrences (elements c))"
    using elements_array_or_missing[of c]
    by (simp add: list_all_iff set_first_occurrences)
  have e: "elements (encode (first_occurrences (elements c))) = first_occurrences (elements c)"
    using reencoded_elements[OF ne, of "first_occurrences (elements c)"]
    by (simp add: elements_encode[OF p] set_first_occurrences)
  show "unique_property c"
    by (simp add: unique_property_def unique_encode e)
  show "\<exists>r. unique c = Inr r \<and> distinct (elements r)
          \<and> set (elements r) = set (elements c)"
    by (simp add: unique_encode e distinct_first_occurrences set_first_occurrences)
qed

text \<open>
  C9. Unique. The result is built from the distinct elements of the container in the
  order of their first occurrence, all missing entries being one element. When no
  position of the container materializes as a zero-length array (as in every container
  with non-decreasing offsets), the result materializes to exactly these: each distinct
  element once, at most one missing entry. A zero-length slice, which a raw pair with
  decreasing offsets can have, is a distinct element that comes back as a second
  missing entry.
\<close>

theorem unique_first_occurrences:
  "(\<exists>r. unique c = Inr r
        \<and> elements r = map reencoded (first_occurrences (elements c)))
   \<and> (Array [] \<notin> set (elements c) \<longrightarrow>
        unique_property c
        \<and> (\<exists>r. unique c = Inr r \<and> distinct (elements r)
               \<and> set (elements r) = set (elements c)))
   \<and> (sorted (start_indices c) \<and> invariant_A c \<longrightarrow> unique_property c)"
proof -
  have p: "list_all array_or_missing (first_occurrences (elements c))"
    using elements_array_or_missing[of c]
    by (simp add: list_all_iff set_first_occurrences)
  have g: "\<exists>r. unique c = Inr r
             \<and> elements r = map reencoded (first_occurrences (elements c))"
    by (simp add: unique_encode elements_encode[OF p])
  have s: "unique_property c" if "sorted (start_indices c) \<and> invariant_A c"
    using that by (intro unique_no_zero_length sorted_offsets_no_zero_length) simp_all
  show ?thesis
    using g s unique_no_zero_length[of c] by blast
qed

theorem unique_first_occurrences_witness:
  "unique_property
     \<lparr>nbits = 8, start_indices = [0, 1, 1, 2, 2], flat_array = [5, 5, 6 :: int]\<rparr>"
  using unique_first_occurrences[of
      "\<lparr>nbits = 8, start_indices = [0, 1, 1, 2, 2], flat_array = [5, 5, 6 :: int]\<rparr>"]
  by (simp add: elements_def element_def len_def stop_offset_def value_range_def
      numeral_eq_Suc)

theorem unique_zero_length_counterexample:
  "\<not> unique_property \<lparr>nbits = 8, start_indices = [1, 0, 1], flat_array = [5 :: int]\<rparr>"
  by (simp add: unique_property_def unique_encode elements_def element_def len_def
      stop_offset_def value_range_def numeral_eq_Suc first_occurrences_def encode_def
      item_len_def missing_def payload_def)

subsection \<open>Shift\<close>

lemma pick_nbits_min_scalar_bits: "pick_nbits [8, 16, 32, 64] 0 t = min_scalar_bits t"
proof -
  have "(t \<le> 2 ^ 8 - 1) = (t < 2 ^ 8)" "(t \<le> 2 ^ 16 - 1) = (t < 2 ^ 16)"
    "(t \<le> 2 ^ 32 - 1) = (t < 2 ^ 32)" by auto
  then show ?thesis unfolding min_scalar_bits_def pick_nbits.simps by simp
qed

lemma min_scalar_bits_ge: "8 \<le> min_scalar_bits t"
  by (simp add: min_scalar_bits_def)

lemma min_scalar_bits_holds: "t < 2 ^ 64 \<Longrightarrow> t < 2 ^ min_scalar_bits t"
  by (simp add: min_scalar_bits_def)

lemma min_scalar_bits_small: "t < 2 ^ 8 \<Longrightarrow> min_scalar_bits t = 8"
  by (simp add: min_scalar_bits_def)

lemma nbits_encode: "nbits (encode data) = min_scalar_bits (sum_list (map item_len data))"
  by (simp add: encode_def pick_nbits_min_scalar_bits del: pick_nbits.simps)

lemma starts_shift: "starts (acc + d) ns = map (\<lambda>x. x + d) (starts acc ns)"
proof (induction ns arbitrary: acc)
  case Nil
  then show ?case by simp
next
  case (Cons n ns)
  have "starts (acc + d + n) ns = starts (acc + n + d) ns" by (simp add: ac_simps)
  then show ?case using Cons[of "acc + n"] by simp
qed

lemma starts_append:
  "starts acc (ms @ ns) = starts acc ms @ starts (acc + sum_list ms) ns"
  by (induction ms arbitrary: acc) (simp_all add: ac_simps)

lemma start_indices_encode_append:
  "start_indices (encode (xs @ ys))
   = start_indices (encode xs)
     @ map (\<lambda>x. x + sum_list (map item_len xs)) (start_indices (encode ys))"
  using starts_shift[of 0 "sum_list (map item_len xs)" "map item_len ys"]
  by (simp add: starts_append)

lemma length_flat_array_encode:
  "list_all array_or_missing data \<Longrightarrow>
   length (flat_array (encode data)) = sum_list (map item_len data)"
  by (simp add: length_concat map_item_len_payload)

lemma invariant_A_encode:
  assumes "list_all array_or_missing data"
  shows "invariant_A (encode data)"
proof -
  have "x \<le> length (flat_array (encode data))" if "x \<in> set (start_indices (encode data))" for x
    using starts_le[of x 0 "map item_len data"] that length_flat_array_encode[OF assms]
    by simp
  then show ?thesis unfolding invariant_A_def list_all_iff by blast
qed

lemma add_offset_no_wrap:
  assumes "\<And>x. x \<in> set xs \<Longrightarrow> x + off < 2 ^ max w (min_scalar_bits off)"
  shows "add_offset w xs off = (max w (min_scalar_bits off), map (\<lambda>x. x + off) xs)"
  using assms by (simp add: add_offset_def Let_def)

lemma validate_ok:
  assumes "\<And>x. x \<in> set si \<Longrightarrow> x \<le> length fa"
  shows "validate_ragged_properties (Ndarray CHR ''u'' w 1 si) (Values 1 fa) = Inr ()"
proof -
  have "True \<notin> set (map (\<lambda>s. s > length fa) si)" using assms by (auto simp: not_less)
  then show ?thesis by (simp add: validate_ragged_properties_def Let_def)
qed

lemma concat_pair:
  assumes fa: "\<And>x. x \<in> set (start_indices a) \<Longrightarrow> x < 2 ^ nbits a"
    and wa: "8 \<le> nbits a"
    and fb: "\<And>x. x \<in> set (start_indices b) \<Longrightarrow>
               x + length (flat_array a)
               < 2 ^ max (nbits b) (min_scalar_bits (length (flat_array a)))"
    and ia: "invariant_A a" and ib: "invariant_A b"
  shows "\<exists>w. concat_same_type [a, b]
             = Inr \<lparr>nbits = w,
                    start_indices = start_indices a
                      @ map (\<lambda>x. x + length (flat_array a)) (start_indices b),
                    flat_array = flat_array a @ flat_array b\<rparr>"
proof -
  have m0: "min_scalar_bits 0 = 8" by (simp add: min_scalar_bits_def)
  have pa: "add_offset (nbits a) (start_indices a) 0 = (nbits a, start_indices a)"
    using fa wa by (subst add_offset_no_wrap) (simp_all add: m0 max_def)
  have pb: "add_offset (nbits b) (start_indices b) (length (flat_array a))
            = (max (nbits b) (min_scalar_bits (length (flat_array a))),
               map (\<lambda>x. x + length (flat_array a)) (start_indices b))"
    using fb by (rule add_offset_no_wrap)
  have v: "validate_ragged_properties
             (Ndarray CHR ''u'' w 1
                (start_indices a @ map (\<lambda>x. x + length (flat_array a)) (start_indices b)))
             (Values 1 (flat_array a @ flat_array b)) = Inr ()" for w
    using ia ib by (intro validate_ok) (auto simp: invariant_A_def list_all_iff)
  show ?thesis
    by (simp add: concat_same_type_def Let_def pa pb v[unfolded One_nat_def])
qed

lemma elements_cong:
  assumes s: "start_indices r = start_indices r'" and f: "flat_array r = flat_array r'"
  shows "elements r = elements r'"
  unfolding elements_def element_def len_def stop_offset_def s f ..

lemma start_indices_encode_le:
  "x \<in> set (start_indices (encode data)) \<Longrightarrow> x \<le> sum_list (map item_len data)"
  using starts_le[of x 0 "map item_len data"] by simp

lemma selected_indices_prefix:
  assumes "0 < p"
  shows "selected_indices (Slice None (Some (- p)) None) n
         = Inr (map int [0 ..< n - min (nat p) n])"
proof -
  define m where "m = nat p"
  define j where "j = n - min (nat p) n"
  have p: "p = int m" and m: "0 < m" using assms by (simp_all add: m_def)
  have hi: "adjust_bound (- p) (int n) 0 (int n) = int j"
  proof (cases "m \<le> n")
    case True
    then show ?thesis unfolding p j_def using m by (simp add: adjust_bound_def of_nat_diff)
  next
    case False
    then show ?thesis unfolding p j_def using m by (simp add: adjust_bound_def)
  qed
  have rl: "range_len 0 (int j) 1 = j"
    by (simp add: range_len_def)
  have "selected_indices (Slice None (Some (- p)) None) n = Inr (map int [0 ..< j])"
    by (simp add: selected_indices_def Let_def hi rl)
  then show ?thesis by (simp only: j_def)
qed

lemma selected_indices_suffix:
  assumes "0 < q"
  shows "selected_indices (Slice (Some q) None None) n
         = Inr (map int [min (nat q) n ..< n])"
proof -
  define k where "k = min (nat q) n"
  have lo: "adjust_bound q (int n) 0 (int n) = int k"
    using assms by (auto simp: adjust_bound_def min_def k_def)
  have kn: "k \<le> n" by (simp add: k_def)
  have rl: "range_len (int k) (int n) 1 = n - k"
    using kn by (auto simp: range_len_def)
  have "map (\<lambda>j. int k + int j) [0 ..< n - k] = map int [k ..< n]"
    by (rule nth_equalityI) auto
  then have "selected_indices (Slice (Some q) None None) n = Inr (map int [k ..< n])"
    by (simp add: selected_indices_def Let_def lo rl)
  then show ?thesis by (simp only: k_def)
qed

lemma getitem_slice_encode:
  assumes s: "selected_indices item (len c) = Inr (map int is)"
    and b: "\<And>i. i \<in> set is \<Longrightarrow> i < len c"
  shows "getitem_slice c item = Inr (encode (map (element c) is))"
proof -
  have "collect (map (getitem c) (map int is)) = collect (map (\<lambda>i. getitem c (int i)) is)"
    by (simp add: comp_def)
  also have "\<dots> = Inr (map (element c) is)" by (rule collect_getitem) (rule b)
  finally have c: "collect (map (getitem c) (map int is)) = Inr (map (element c) is)" .
  have "from_sequence (map (element c) is) = Inr (encode (map (element c) is))"
    by (rule from_sequence_elements)
  then show ?thesis
    by (simp only: getitem_slice_def s c sum.case from_sequence_def)
qed

lemma map_element_take: "n \<le> len c \<Longrightarrow> map (element c) [0 ..< n] = take n (elements c)"
  by (simp add: elements_def take_map)

lemma map_element_drop: "map (element c) [k ..< len c] = drop k (elements c)"
  by (simp add: elements_def drop_map)

lemma shift_spec_forward:
  assumes "0 < p"
  shows "shift_spec xs p f
         = replicate (min (nat p) (length xs)) f @ take (length xs - min (nat p) (length xs)) xs"
proof -
  define m where "m = nat p"
  have p: "p = int m" and m: "0 < m" using assms by (simp_all add: m_def)
  have d: "nat (int i - int m) = i - m" for i by simp
  show ?thesis
    unfolding shift_spec_def p nat_int
    by (rule nth_equalityI) (auto simp: nth_append min_def d)
qed

lemma shift_spec_backward:
  assumes "p < 0"
  shows "shift_spec xs p f
         = drop (min (nat \<bar>p\<bar>) (length xs)) xs @ replicate (min (nat \<bar>p\<bar>) (length xs)) f"
proof -
  define m where "m = nat (- p)"
  have p: "p = - int m" and m: "0 < m" using assms by (simp_all add: m_def)
  have a: "\<bar>- int m\<bar> = int m" by simp
  have d: "nat (int i + int m) = i + m" for i by (simp add: nat_add_distrib)
  show ?thesis
    unfolding shift_spec_def p a nat_int
    by (rule nth_equalityI) (auto simp: nth_append min_def d ac_simps)
qed

lemma copy_invariant_ok: "invariant_A c \<Longrightarrow> copy c deep = Inr c"
proof -
  assume "invariant_A c"
  then have "validate_ragged_properties (Ndarray CHR ''u'' (nbits c) 1 (start_indices c))
               (Values 1 (flat_array c)) = Inr ()"
    by (intro validate_ok) (simp add: invariant_A_def list_all_iff)
  then show ?thesis by (simp add: copy_def)
qed

lemma item_len_reencoded_fill:
  "item_len (if fv = PyNone then NaN else fv) = item_len fv"
  by (simp add: item_len_def missing_def)

lemma reencoded_fill: "reencoded (if fv = PyNone then NaN else fv) = reencoded fv"
  by (simp add: reencoded_def)

lemma array_or_missing_fill:
  "array_or_missing fv \<Longrightarrow> array_or_missing (if fv = PyNone then NaN else fv)"
  by (simp add: array_or_missing_def)

lemma sum_list_replicate_item_len: "sum_list (map item_len (replicate k v)) = k * item_len v"
  by (induction k) simp_all

lemma sum_take_le: "sum_list (take n (ns :: nat list)) \<le> sum_list ns"
  by (metis append_take_drop_id le_add1 sum_list_append)

lemma sum_drop_le: "sum_list (drop n (ns :: nat list)) \<le> sum_list ns"
  by (metis append_take_drop_id le_add2 sum_list_append)

lemma length_elements [simp]: "length (elements c) = len c"
  by (simp add: elements_def)

subsection \<open>Concatenation without overflow\<close>

text \<open>
  When the offsets cannot overflow (containers that satisfy Invariant A, with at most
  255 values in all) the three groupings of a concatenation give the same container.
\<close>

lemma add_offset_small:
  assumes w: "8 \<le> w" and o: "off < 2 ^ 8"
    and x: "\<And>x. x \<in> set xs \<Longrightarrow> x + off < 2 ^ 8"
  shows "add_offset w xs off = (w, map (\<lambda>x. x + off) xs)"
proof -
  have "min_scalar_bits off = 8" using o by (rule min_scalar_bits_small)
  then have m: "max w (min_scalar_bits off) = w" using w by simp
  have "(x + off) mod 2 ^ w = x + off" if "x \<in> set xs" for x
  proof -
    have "x + off < 2 ^ 8" using that by (rule x)
    also have "(2::nat) ^ 8 \<le> 2 ^ w" using w by (intro power_increasing) simp_all
    finally show ?thesis by simp
  qed
  then show ?thesis by (simp add: add_offset_def Let_def m)
qed

lemma invariant_A_nth: "invariant_A c \<Longrightarrow> x \<in> set (start_indices c) \<Longrightarrow> x \<le> length (flat_array c)"
  by (simp add: invariant_A_def list_all_iff)

lemma add_offset_bounded:
  assumes i: "invariant_A c" and w: "8 \<le> nbits c"
    and t: "length (flat_array c) + off < 2 ^ 8"
  shows "add_offset (nbits c) (start_indices c) off
         = (nbits c, map (\<lambda>x. x + off) (start_indices c))"
proof (rule add_offset_small[OF w])
  show "off < 2 ^ 8" using t by simp
next
  fix x assume "x \<in> set (start_indices c)"
  then have "x \<le> length (flat_array c)" by (rule invariant_A_nth[OF i])
  then show "x + off < 2 ^ 8" using t by simp
qed

lemma concat_two_small:
  assumes "invariant_A a" "invariant_A b" "8 \<le> nbits a" "8 \<le> nbits b"
    and "length (flat_array a) + length (flat_array b) < 2 ^ 8"
  shows "concat_same_type [a, b]
         = Inr \<lparr>nbits = max (nbits a) (nbits b),
                start_indices = start_indices a
                  @ map (\<lambda>x. x + length (flat_array a)) (start_indices b),
                flat_array = flat_array a @ flat_array b\<rparr>"
proof -
  have pa: "add_offset (nbits a) (start_indices a) 0 = (nbits a, start_indices a)"
    using assms by (subst add_offset_bounded) simp_all
  have pb: "add_offset (nbits b) (start_indices b) (length (flat_array a))
            = (nbits b, map (\<lambda>x. x + length (flat_array a)) (start_indices b))"
    using assms by (intro add_offset_bounded) simp_all
  have v: "validate_ragged_properties
             (Ndarray CHR ''u'' w 1
                (start_indices a @ map (\<lambda>x. x + length (flat_array a)) (start_indices b)))
             (Values 1 (flat_array a @ flat_array b)) = Inr ()" for w
    using invariant_A_nth[OF assms(1)] invariant_A_nth[OF assms(2)]
    by (intro validate_ok) fastforce
  show ?thesis
    by (simp add: concat_same_type_def Let_def pa pb v[unfolded One_nat_def] max.commute)
qed

lemma concat_three_small:
  assumes "invariant_A a" "invariant_A b" "invariant_A c"
    and "8 \<le> nbits a" "8 \<le> nbits b" "8 \<le> nbits c"
    and "length (flat_array a) + length (flat_array b) + length (flat_array c) < 2 ^ 8"
  shows "concat_same_type [a, b, c]
         = Inr \<lparr>nbits = max (nbits a) (max (nbits b) (nbits c)),
                start_indices = start_indices a
                  @ map (\<lambda>x. x + length (flat_array a)) (start_indices b)
                  @ map (\<lambda>x. x + (length (flat_array a) + length (flat_array b)))
                      (start_indices c),
                flat_array = flat_array a @ flat_array b @ flat_array c\<rparr>"
proof -
  have pa: "add_offset (nbits a) (start_indices a) 0 = (nbits a, start_indices a)"
    using assms by (subst add_offset_bounded) simp_all
  have pb: "add_offset (nbits b) (start_indices b) (length (flat_array a))
            = (nbits b, map (\<lambda>x. x + length (flat_array a)) (start_indices b))"
    using assms by (intro add_offset_bounded) simp_all
  have pc: "add_offset (nbits c) (start_indices c)
              (length (flat_array a) + length (flat_array b))
            = (nbits c, map (\<lambda>x. x + (length (flat_array a) + length (flat_array b)))
                          (start_indices c))"
    using assms by (intro add_offset_bounded) simp_all
  have v: "validate_ragged_properties
             (Ndarray CHR ''u'' w 1
                (start_indices a @ map (\<lambda>x. x + length (flat_array a)) (start_indices b)
                 @ map (\<lambda>x. x + (length (flat_array a) + length (flat_array b)))
                     (start_indices c)))
             (Values 1 (flat_array a @ flat_array b @ flat_array c)) = Inr ()" for w
    using invariant_A_nth[OF assms(1)] invariant_A_nth[OF assms(2)]
      invariant_A_nth[OF assms(3)]
    by (intro validate_ok) fastforce
  show ?thesis
    by (simp add: concat_same_type_def Let_def pa pb pc v[unfolded One_nat_def] ac_simps)
qed

lemma concat_associative_small:
  assumes "invariant_A a" "invariant_A b" "invariant_A c"
    and "8 \<le> nbits a" "8 \<le> nbits b" "8 \<le> nbits c"
    and "length (flat_array a) + length (flat_array b) + length (flat_array c) < 2 ^ 8"
  shows "(case concat_same_type [a, b] of
            Inl e \<Rightarrow> Inl e | Inr ab \<Rightarrow> concat_same_type [ab, c])
         = concat_same_type [a, b, c]"
    and "(case concat_same_type [b, c] of
            Inl e \<Rightarrow> Inl e | Inr bc \<Rightarrow> concat_same_type [a, bc])
         = concat_same_type [a, b, c]"
    and "\<exists>r. concat_same_type [a, b, c] = Inr r"
proof -
  let ?ab = "\<lparr>nbits = max (nbits a) (nbits b),
              start_indices = start_indices a
                @ map (\<lambda>x. x + length (flat_array a)) (start_indices b),
              flat_array = flat_array a @ flat_array b\<rparr>"
  let ?bc = "\<lparr>nbits = max (nbits b) (nbits c),
              start_indices = start_indices b
                @ map (\<lambda>x. x + length (flat_array b)) (start_indices c),
              flat_array = flat_array b @ flat_array c\<rparr>"
  have ab: "concat_same_type [a, b] = Inr ?ab"
    using assms by (intro concat_two_small) simp_all
  have bc: "concat_same_type [b, c] = Inr ?bc"
    using assms by (intro concat_two_small) simp_all
  have iab: "invariant_A ?ab" by (rule concat_same_type_invariant_A[OF ab])
  have ibc: "invariant_A ?bc" by (rule concat_same_type_invariant_A[OF bc])
  have abc: "concat_same_type [?ab, c]
             = Inr \<lparr>nbits = max (nbits ?ab) (nbits c),
                    start_indices = start_indices ?ab
                      @ map (\<lambda>x. x + length (flat_array ?ab)) (start_indices c),
                    flat_array = flat_array ?ab @ flat_array c\<rparr>"
    using assms by (intro concat_two_small iab) simp_all
  have a_bc: "concat_same_type [a, ?bc]
             = Inr \<lparr>nbits = max (nbits a) (nbits ?bc),
                    start_indices = start_indices a
                      @ map (\<lambda>x. x + length (flat_array a)) (start_indices ?bc),
                    flat_array = flat_array a @ flat_array ?bc\<rparr>"
    using assms by (intro concat_two_small ibc) simp_all
  have t: "concat_same_type [a, b, c]
           = Inr \<lparr>nbits = max (nbits a) (max (nbits b) (nbits c)),
                  start_indices = start_indices a
                    @ map (\<lambda>x. x + length (flat_array a)) (start_indices b)
                    @ map (\<lambda>x. x + (length (flat_array a) + length (flat_array b)))
                        (start_indices c),
                  flat_array = flat_array a @ flat_array b @ flat_array c\<rparr>"
    using assms by (intro concat_three_small) simp_all
  show "(case concat_same_type [a, b] of
           Inl e \<Rightarrow> Inl e | Inr ab \<Rightarrow> concat_same_type [ab, c])
        = concat_same_type [a, b, c]"
    unfolding ab sum.case abc t by (simp add: ac_simps)
  show "(case concat_same_type [b, c] of
           Inl e \<Rightarrow> Inl e | Inr bc \<Rightarrow> concat_same_type [a, bc])
        = concat_same_type [a, b, c]"
    unfolding bc sum.case a_bc t by (simp add: ac_simps comp_def)
  show "\<exists>r. concat_same_type [a, b, c] = Inr r" using t by blast
qed

subsection \<open>Shift: the moved elements\<close>

lemma add_offset_kept:
  "offsets_kept_at w xs off \<Longrightarrow>
   add_offset w xs off = (max w (min_scalar_bits off), map (\<lambda>x. x + off) xs)"
  by (simp add: add_offset_def Let_def offsets_kept_at_def list_all_iff)

text \<open>The condition is the exact one: without it \<open>add_offset\<close> changes an offset.\<close>

lemma add_offset_kept_iff:
  "offsets_kept_at w xs off \<longleftrightarrow> snd (add_offset w xs off) = map (\<lambda>x. x + off) xs"
proof
  assume "offsets_kept_at w xs off"
  then show "snd (add_offset w xs off) = map (\<lambda>x. x + off) xs"
    by (simp add: add_offset_kept)
next
  assume a: "snd (add_offset w xs off) = map (\<lambda>x. x + off) xs"
  have "x + off < 2 ^ max w (min_scalar_bits off)" if "x \<in> set xs" for x
  proof -
    from a that have "(x + off) mod 2 ^ max w (min_scalar_bits off) = x + off"
      by (simp add: add_offset_def Let_def)
    moreover have "(x + off) mod 2 ^ max w (min_scalar_bits off)
                   < 2 ^ max w (min_scalar_bits off)" by simp
    ultimately show ?thesis by simp
  qed
  then show "offsets_kept_at w xs off" by (simp add: offsets_kept_at_def list_all_iff)
qed

lemma concat_pair_kept:
  assumes k: "offsets_kept a b" and ia: "invariant_A a" and ib: "invariant_A b"
  shows "\<exists>w. concat_same_type [a, b]
             = Inr \<lparr>nbits = w,
                    start_indices = start_indices a
                      @ map (\<lambda>x. x + length (flat_array a)) (start_indices b),
                    flat_array = flat_array a @ flat_array b\<rparr>"
proof -
  have pa: "add_offset (nbits a) (start_indices a) 0
            = (max (nbits a) (min_scalar_bits 0), start_indices a)"
    using k by (simp add: offsets_kept_def add_offset_kept)
  have pb: "add_offset (nbits b) (start_indices b) (length (flat_array a))
            = (max (nbits b) (min_scalar_bits (length (flat_array a))),
               map (\<lambda>x. x + length (flat_array a)) (start_indices b))"
    using k by (simp add: offsets_kept_def add_offset_kept)
  have v: "validate_ragged_properties
             (Ndarray CHR ''u'' w 1
                (start_indices a @ map (\<lambda>x. x + length (flat_array a)) (start_indices b)))
             (Values 1 (flat_array a @ flat_array b)) = Inr ()" for w
    using ia ib by (intro validate_ok) (auto simp: invariant_A_def list_all_iff)
  show ?thesis
    by (simp add: concat_same_type_def Let_def pa pb v[unfolded One_nat_def])
qed

lemma concat_encode:
  assumes xs: "list_all array_or_missing xs" and ys: "list_all array_or_missing ys"
    and fit: "offsets_kept (encode xs) (encode ys)"
  shows "\<exists>r. concat_same_type [encode xs, encode ys] = Inr r
            \<and> len r = length xs + length ys
            \<and> elements r = map reencoded (xs @ ys)"
proof -
  have la: "length (flat_array (encode xs)) = sum_list (map item_len xs)"
    by (rule length_flat_array_encode[OF xs])
  from concat_pair_kept[OF fit invariant_A_encode[OF xs] invariant_A_encode[OF ys]]
  obtain w where c: "concat_same_type [encode xs, encode ys]
      = Inr \<lparr>nbits = w,
             start_indices = start_indices (encode xs)
               @ map (\<lambda>x. x + length (flat_array (encode xs))) (start_indices (encode ys)),
             flat_array = flat_array (encode xs) @ flat_array (encode ys)\<rparr>"
    by blast
  let ?r = "\<lparr>nbits = w,
             start_indices = start_indices (encode xs)
               @ map (\<lambda>x. x + length (flat_array (encode xs))) (start_indices (encode ys)),
             flat_array = flat_array (encode xs) @ flat_array (encode ys)\<rparr>"
  have s: "start_indices ?r = start_indices (encode (xs @ ys))"
    unfolding la start_indices_encode_append by simp
  have f: "flat_array ?r = flat_array (encode (xs @ ys))" by simp
  have "elements ?r = elements (encode (xs @ ys))" by (rule elements_cong[OF s f])
  also have "\<dots> = map reencoded (xs @ ys)"
    by (rule elements_encode) (simp add: xs ys)
  finally have e: "elements ?r = map reencoded (xs @ ys)" .
  have l: "len ?r = length xs + length ys" by (simp add: len_def)
  show ?thesis using c e l by blast
qed

lemma item_len_cast_item [simp]: "item_len (cast_item f v) = item_len v"
  by (cases v) (simp_all add: cast_item_def item_len_def missing_def)

lemma payload_cast_item: "payload (cast_item f v) = map f (payload v)"
  by (cases v) (simp_all add: cast_item_def payload_def)

lemma array_or_missing_cast_item [simp]:
  "array_or_missing (cast_item f v) = array_or_missing v"
  by (cases v) (simp_all add: cast_item_def array_or_missing_def)

lemma reencoded_cast_fill:
  "reencoded (cast_item f (if fv = PyNone then NaN else fv)) = reencoded (cast_item f fv)"
  by (simp add: reencoded_def cast_item_def)

lemma astype_values_encode:
  "astype_values f (encode xs) = encode (map (cast_item f) xs)"
  by (simp add: astype_values_def encode_def comp_def payload_cast_item map_concat)

lemma encode_cast_shape:
  "nbits (encode (map (cast_item f) xs)) = nbits (encode xs)"
  "start_indices (encode (map (cast_item f) xs)) = start_indices (encode xs)"
  "length (flat_array (encode (map (cast_item f) xs))) = length (flat_array (encode xs))"
  by (simp_all add: encode_def comp_def payload_cast_item length_concat)

lemma offsets_kept_cast:
  "offsets_kept (encode (map (cast_item f) xs)) (encode (map (cast_item g) ys))
   = offsets_kept (encode xs) (encode ys)"
  unfolding offsets_kept_def encode_cast_shape ..

lemma encode_fill:
  "encode (replicate k (if fv = PyNone then NaN else fv)) = encode (replicate k fv)"
  by (simp add: encode_def item_len_def missing_def payload_def)

lemma shift_forward:
  assumes fv: "array_or_missing fv" and n: "len c \<noteq> 0" and p: "0 < p"
    and fit: "offsets_fit c p fv"
  shows "\<exists>r. shift f g c p fv = Inr r \<and> len r = len c
            \<and> elements r
                = map reencoded (shift_spec (map (cast_item f) (elements c)) p (cast_item g fv))"
proof -
  define k where "k = min (nat \<bar>p\<bar>) (len c)"
  define fv' where "fv' = (if fv = PyNone then NaN else fv)"
  let ?fills = "replicate k fv'"
  let ?kept = "take (len c - k) (elements c)"
  have kp: "k = min (nat p) (len c)" using p by (simp add: k_def)
  have pf: "list_all array_or_missing ?fills"
    by (simp add: list_all_iff fv'_def array_or_missing_fill[OF fv])
  have pk: "list_all array_or_missing ?kept"
    using elements_array_or_missing[of c] by (auto simp: list_all_iff dest: in_set_takeD)
  have e: "from_sequence ?fills = Inr (encode ?fills)"
    by (rule from_sequence_encode[OF pf])
  have s: "selected_indices (Slice None (Some (- p)) None) (len c)
           = Inr (map int [0 ..< len c - k])"
    unfolding kp by (rule selected_indices_prefix[OF p])
  have b: "getitem_slice c (Slice None (Some (- p)) None)
           = Inr (encode (map (element c) [0 ..< len c - k]))"
    by (rule getitem_slice_encode[OF s]) simp
  have m: "map (element c) [0 ..< len c - k] = ?kept"
    by (rule map_element_take) simp
  have sh: "shift f g c p fv
            = concat_same_type
                [encode (map (cast_item g) ?fills), encode (map (cast_item f) ?kept)]"
    using n p
    unfolding shift_def Let_def k_def[symmetric] fv'_def[symmetric] e b m
    by (simp add: astype_values_encode)
  have ef: "encode ?fills = encode (replicate k fv)"
    unfolding fv'_def by (rule encode_fill)
  have "offsets_kept (encode (replicate k fv)) (encode ?kept)"
    using fit p unfolding offsets_fit_def shift_operands_def Let_def k_def[symmetric]
    by simp
  then have "offsets_kept (encode ?fills) (encode ?kept)" by (simp only: ef)
  then have fit': "offsets_kept (encode (map (cast_item g) ?fills))
                     (encode (map (cast_item f) ?kept))"
    by (simp only: offsets_kept_cast)
  have pf': "list_all array_or_missing (map (cast_item g) ?fills)"
    using pf by (auto simp: list_all_iff)
  have pk': "list_all array_or_missing (map (cast_item f) ?kept)"
    using pk by (auto simp: list_all_iff)
  from concat_encode[OF pf' pk' fit'] obtain r where
    r: "concat_same_type
          [encode (map (cast_item g) ?fills), encode (map (cast_item f) ?kept)] = Inr r"
    and l: "len r = length (map (cast_item g) ?fills) + length (map (cast_item f) ?kept)"
    and el: "elements r
             = map reencoded (map (cast_item g) ?fills @ map (cast_item f) ?kept)"
    by blast
  have kl: "k \<le> len c" by (simp add: k_def)
  have "shift_spec (map (cast_item f) (elements c)) p (cast_item g fv)
        = replicate k (cast_item g fv) @ map (cast_item f) ?kept"
    using shift_spec_forward[OF p, of "map (cast_item f) (elements c)" "cast_item g fv"]
    by (simp add: kp take_map)
  then have "map reencoded (shift_spec (map (cast_item f) (elements c)) p (cast_item g fv))
             = map reencoded (map (cast_item g) ?fills @ map (cast_item f) ?kept)"
    by (simp add: fv'_def reencoded_cast_fill)
  then show ?thesis using sh r l el kl by simp
qed

lemma shift_backward:
  assumes fv: "array_or_missing fv" and n: "len c \<noteq> 0" and p: "p < 0"
    and fit: "offsets_fit c p fv"
  shows "\<exists>r. shift f g c p fv = Inr r \<and> len r = len c
            \<and> elements r
                = map reencoded (shift_spec (map (cast_item f) (elements c)) p (cast_item g fv))"
proof -
  define k where "k = min (nat \<bar>p\<bar>) (len c)"
  define fv' where "fv' = (if fv = PyNone then NaN else fv)"
  let ?fills = "replicate k fv'"
  let ?kept = "drop k (elements c)"
  have q: "0 < \<bar>p\<bar>" using p by simp
  have np: "\<not> 0 < p" "p \<noteq> 0" using p by simp_all
  have pf: "list_all array_or_missing ?fills"
    by (simp add: list_all_iff fv'_def array_or_missing_fill[OF fv])
  have pk: "list_all array_or_missing ?kept"
    using elements_array_or_missing[of c] by (auto simp: list_all_iff dest: in_set_dropD)
  have e: "from_sequence ?fills = Inr (encode ?fills)"
    by (rule from_sequence_encode[OF pf])
  have s: "selected_indices (Slice (Some \<bar>p\<bar>) None None) (len c)
           = Inr (map int [k ..< len c])"
    unfolding k_def by (rule selected_indices_suffix[OF q])
  have a: "getitem_slice c (Slice (Some \<bar>p\<bar>) None None)
           = Inr (encode (map (element c) [k ..< len c]))"
    by (rule getitem_slice_encode[OF s]) simp
  have m: "map (element c) [k ..< len c] = ?kept" by (rule map_element_drop)
  have sh: "shift f g c p fv
            = concat_same_type
                [encode (map (cast_item f) ?kept), encode (map (cast_item g) ?fills)]"
    using n np
    unfolding shift_def Let_def k_def[symmetric] fv'_def[symmetric] e a m
    by (simp add: astype_values_encode)
  have ef: "encode ?fills = encode (replicate k fv)"
    unfolding fv'_def by (rule encode_fill)
  have "offsets_kept (encode ?kept) (encode (replicate k fv))"
    using fit np unfolding offsets_fit_def shift_operands_def Let_def k_def[symmetric]
    by simp
  then have "offsets_kept (encode ?kept) (encode ?fills)" by (simp only: ef)
  then have fit': "offsets_kept (encode (map (cast_item f) ?kept))
                     (encode (map (cast_item g) ?fills))"
    by (simp only: offsets_kept_cast)
  have pf': "list_all array_or_missing (map (cast_item g) ?fills)"
    using pf by (auto simp: list_all_iff)
  have pk': "list_all array_or_missing (map (cast_item f) ?kept)"
    using pk by (auto simp: list_all_iff)
  from concat_encode[OF pk' pf' fit'] obtain r where
    r: "concat_same_type
          [encode (map (cast_item f) ?kept), encode (map (cast_item g) ?fills)] = Inr r"
    and l: "len r = length (map (cast_item f) ?kept) + length (map (cast_item g) ?fills)"
    and el: "elements r
             = map reencoded (map (cast_item f) ?kept @ map (cast_item g) ?fills)"
    by blast
  have kl: "k \<le> len c" by (simp add: k_def)
  have "shift_spec (map (cast_item f) (elements c)) p (cast_item g fv)
        = map (cast_item f) ?kept @ replicate k (cast_item g fv)"
    using shift_spec_backward[OF p, of "map (cast_item f) (elements c)" "cast_item g fv"]
    by (simp add: k_def drop_map)
  then have "map reencoded (shift_spec (map (cast_item f) (elements c)) p (cast_item g fv))
             = map reencoded (map (cast_item f) ?kept @ map (cast_item g) ?fills)"
    by (simp add: fv'_def reencoded_cast_fill)
  then show ?thesis using sh r l el kl by simp
qed

lemma shift_spec_all_fill:
  "int (length xs) \<le> \<bar>p\<bar> \<Longrightarrow> shift_spec xs p f = replicate (length xs) f"
  unfolding shift_spec_def by (rule nth_equalityI) auto


lemma encode_offsets_kept_own:
  assumes "sum_list (map item_len xs) < 2 ^ 64"
  shows "offsets_kept_at (nbits (encode xs)) (start_indices (encode xs)) 0"
proof -
  have "x + 0 < 2 ^ max (nbits (encode xs)) (min_scalar_bits 0)"
    if "x \<in> set (start_indices (encode xs))" for x
  proof -
    have "x \<le> sum_list (map item_len xs)" using that by (rule start_indices_encode_le)
    also have "\<dots> < 2 ^ min_scalar_bits (sum_list (map item_len xs))"
      using assms by (rule min_scalar_bits_holds)
    also have "\<dots> \<le> 2 ^ max (nbits (encode xs)) (min_scalar_bits 0)"
      by (intro power_increasing) (simp_all add: nbits_encode)
    finally show ?thesis by simp
  qed
  then show ?thesis by (simp add: offsets_kept_at_def list_all_iff)
qed

lemma offsets_kept_no_values_first:
  assumes xs: "list_all array_or_missing xs" and z: "sum_list (map item_len xs) = 0"
    and t: "sum_list (map item_len ys) < 2 ^ 64"
  shows "offsets_kept (encode xs) (encode ys)"
proof -
  have l: "length (flat_array (encode xs)) = 0"
    using length_flat_array_encode[OF xs] z by simp
  have a: "offsets_kept_at (nbits (encode xs)) (start_indices (encode xs)) 0"
    by (rule encode_offsets_kept_own) (simp add: z)
  have b: "offsets_kept_at (nbits (encode ys)) (start_indices (encode ys)) 0"
    by (rule encode_offsets_kept_own[OF t])
  show ?thesis unfolding offsets_kept_def l using a b by simp
qed

lemma offsets_kept_no_values_second:
  assumes xs: "list_all array_or_missing xs" and z: "sum_list (map item_len ys) = 0"
    and t: "sum_list (map item_len xs) < 2 ^ 64"
  shows "offsets_kept (encode xs) (encode ys)"
proof -
  let ?t = "sum_list (map item_len xs)"
  have l: "length (flat_array (encode xs)) = ?t" by (rule length_flat_array_encode[OF xs])
  have a: "offsets_kept_at (nbits (encode xs)) (start_indices (encode xs)) 0"
    by (rule encode_offsets_kept_own[OF t])
  have "x + ?t < 2 ^ max (nbits (encode ys)) (min_scalar_bits ?t)"
    if "x \<in> set (start_indices (encode ys))" for x
  proof -
    have "x \<le> sum_list (map item_len ys)" using that by (rule start_indices_encode_le)
    then have x: "x = 0" using z by simp
    have "?t < 2 ^ min_scalar_bits ?t" using t by (rule min_scalar_bits_holds)
    also have "(2::nat) ^ min_scalar_bits ?t
               \<le> 2 ^ max (nbits (encode ys)) (min_scalar_bits ?t)"
      by (intro power_increasing) simp_all
    finally show ?thesis unfolding x by simp
  qed
  then have b: "offsets_kept_at (nbits (encode ys)) (start_indices (encode ys)) ?t"
    by (simp add: offsets_kept_at_def list_all_iff)
  show ?thesis unfolding offsets_kept_def l using a b by simp
qed

lemma offsets_fit_no_fill_values:
  assumes fv: "array_or_missing fv" and z: "item_len fv = 0"
    and t: "sum_list (map item_len (elements c)) < 2 ^ 64"
  shows "offsets_fit c p fv"
proof -
  define k where "k = min (nat \<bar>p\<bar>) (len c)"
  have pf: "list_all array_or_missing (replicate k fv)"
    using fv by (auto simp: list_all_iff)
  have zf: "sum_list (map item_len (replicate k fv)) = 0"
    by (simp add: sum_list_replicate_item_len z)
  have tk: "sum_list (map item_len (take n (elements c))) < 2 ^ 64" for n
    using sum_take_le[of n "map item_len (elements c)"] t by (simp add: take_map)
  have td: "sum_list (map item_len (drop n (elements c))) < 2 ^ 64" for n
    using sum_drop_le[of n "map item_len (elements c)"] t by (simp add: drop_map)
  have pd: "list_all array_or_missing (drop k (elements c))"
    using elements_array_or_missing[of c] by (auto simp: list_all_iff dest: in_set_dropD)
  show ?thesis
    unfolding offsets_fit_def shift_operands_def Let_def k_def[symmetric]
    using offsets_kept_no_values_first[OF pf zf tk]
      offsets_kept_no_values_second[OF pd zf td]
    by simp
qed

lemma cast_item_ident: "cast_item (\<lambda>x. x) v = v"
  by (cases v) (simp_all add: cast_item_def)

text \<open>
  C5. Shift. For a container of length \<open>N\<close> that satisfies Invariant A and a fill value
  that is an array or missing: when \<open>periods\<close> is 0 or \<open>N\<close> is 0 the result has the
  contents of the container and is a shallow copy, the very arrays of the source.
  Otherwise, when the concatenation changes no offset (\<open>offsets_fit\<close>, which always
  holds for a fill without values), the result has length \<open>N\<close>, position \<open>i\<close> holds
  the element of position \<open>i - periods\<close>, and the \<open>min(|periods|, N)\<close> vacated
  positions hold the fill. Values are those of the source converted to the common dtype
  of the two buffers, and a zero-length array (as fill or as element) reads as missing.
  When \<open>|periods| \<ge> N\<close> every element is the fill.
\<close>

theorem shift_elements:
  assumes "array_or_missing fill_value" and "invariant_A c"
  shows "(len c = 0 \<or> periods = 0 \<longrightarrow>
            shift f g c periods fill_value = Inr c
            \<and> (\<forall>mem self. deref mem self = c \<longrightarrow>
                   shift_ref f g mem self periods fill_value = Inr (mem, self)))
       \<and> (len c \<noteq> 0 \<and> periods \<noteq> 0 \<and> offsets_fit c periods fill_value \<longrightarrow>
            (\<exists>r. shift f g c periods fill_value = Inr r \<and> len r = len c
               \<and> elements r
                   = map reencoded
                       (shift_spec (map (cast_item f) (elements c)) periods
                          (cast_item g fill_value))
               \<and> elements r
                   = (if 0 < periods
                      then replicate (min (nat \<bar>periods\<bar>) (len c))
                             (reencoded (cast_item g fill_value))
                           @ map (\<lambda>v. reencoded (cast_item f v))
                               (take (len c - min (nat \<bar>periods\<bar>) (len c)) (elements c))
                      else map (\<lambda>v. reencoded (cast_item f v))
                             (drop (min (nat \<bar>periods\<bar>) (len c)) (elements c))
                           @ replicate (min (nat \<bar>periods\<bar>) (len c))
                               (reencoded (cast_item g fill_value)))
               \<and> (int (len c) \<le> \<bar>periods\<bar> \<longrightarrow>
                    elements r = replicate (len c) (reencoded (cast_item g fill_value)))))
       \<and> (item_len fill_value = 0 \<and> sum_list (map item_len (elements c)) < 2 ^ 64 \<longrightarrow>
            offsets_fit c periods fill_value)"
proof (intro conjI impI)
  assume z: "len c = 0 \<or> periods = 0"
  have cp: "copy c False = Inr c" by (rule copy_invariant_ok[OF assms(2)])
  show "shift f g c periods fill_value = Inr c"
    using z cp by (simp add: shift_def)
  show "\<forall>mem self. deref mem self = c \<longrightarrow>
          shift_ref f g mem self periods fill_value = Inr (mem, self)"
    using z cp by (auto simp: shift_ref_def copy_ref_def)
next
  assume "item_len fill_value = 0 \<and> sum_list (map item_len (elements c)) < 2 ^ 64"
  then show "offsets_fit c periods fill_value"
    using assms(1) by (intro offsets_fit_no_fill_values) simp_all
next
  assume a: "len c \<noteq> 0 \<and> periods \<noteq> 0 \<and> offsets_fit c periods fill_value"
  let ?xs = "map (cast_item f) (elements c)"
  let ?fill = "cast_item g fill_value"
  have "\<exists>r. shift f g c periods fill_value = Inr r \<and> len r = len c
          \<and> elements r = map reencoded (shift_spec ?xs periods ?fill)"
  proof (cases "0 < periods")
    case True
    then show ?thesis using a assms(1) by (intro shift_forward) simp_all
  next
    case False
    then have "periods < 0" using a by simp
    then show ?thesis using a assms(1) by (intro shift_backward) simp_all
  qed
  then obtain r where r: "shift f g c periods fill_value = Inr r" and l: "len r = len c"
    and e: "elements r = map reencoded (shift_spec ?xs periods ?fill)"
    by blast
  have lx: "length ?xs = len c" by simp
  have f: "elements r
           = (if 0 < periods
              then replicate (min (nat \<bar>periods\<bar>) (len c)) (reencoded ?fill)
                   @ map (\<lambda>v. reencoded (cast_item f v))
                       (take (len c - min (nat \<bar>periods\<bar>) (len c)) (elements c))
              else map (\<lambda>v. reencoded (cast_item f v))
                     (drop (min (nat \<bar>periods\<bar>) (len c)) (elements c))
                   @ replicate (min (nat \<bar>periods\<bar>) (len c)) (reencoded ?fill))"
  proof (cases "0 < periods")
    case True
    then show ?thesis
      unfolding e using shift_spec_forward[OF True, of ?xs ?fill]
      by (simp add: take_map comp_def)
  next
    case False
    then have n: "periods < 0" using a by simp
    show ?thesis
      unfolding e using shift_spec_backward[OF n, of ?xs ?fill] False
      by (simp add: drop_map comp_def)
  qed
  have g: "int (len c) \<le> \<bar>periods\<bar> \<longrightarrow> elements r = replicate (len c) (reencoded ?fill)"
    unfolding e using shift_spec_all_fill[of ?xs periods ?fill] by simp
  show "\<exists>r. shift f g c periods fill_value = Inr r \<and> len r = len c
          \<and> elements r = map reencoded (shift_spec ?xs periods ?fill)
          \<and> elements r
              = (if 0 < periods
                 then replicate (min (nat \<bar>periods\<bar>) (len c)) (reencoded ?fill)
                      @ map (\<lambda>v. reencoded (cast_item f v))
                          (take (len c - min (nat \<bar>periods\<bar>) (len c)) (elements c))
                 else map (\<lambda>v. reencoded (cast_item f v))
                        (drop (min (nat \<bar>periods\<bar>) (len c)) (elements c))
                      @ replicate (min (nat \<bar>periods\<bar>) (len c)) (reencoded ?fill))
          \<and> (int (len c) \<le> \<bar>periods\<bar> \<longrightarrow>
               elements r = replicate (len c) (reencoded ?fill))"
    using r l e f g by blast
qed

lemma elements_wide:
  "elements \<lparr>nbits = 16, start_indices = [0, 300],
             flat_array = replicate 300 (0::int) @ [1]\<rparr>
   = [Array (replicate 300 0), Array [1]]"
  by (simp add: elements_def element_def len_def stop_offset_def Let_def
      np_slice_value_range[symmetric] np_slice_def numeral_2_eq_2)

theorem shift_elements_witness:
  "shift (\<lambda>x. x) (\<lambda>x. x)
     \<lparr>nbits = 8, start_indices = [0, 2, 3, 3], flat_array = [1, 2, 3, 4, 5, 6 :: int]\<rparr>
     0 PyNone
   = Inr \<lparr>nbits = 8, start_indices = [0, 2, 3, 3], flat_array = [1, 2, 3, 4, 5, 6]\<rparr>
   \<and> (case shift (\<lambda>x. x) (\<lambda>x. x)
              \<lparr>nbits = 16, start_indices = [0, 300],
               flat_array = replicate 300 (0::int) @ [1]\<rparr> 1 (Array [7]) of
        Inl e \<Rightarrow> False
      | Inr r \<Rightarrow> elements r = [Array [7], Array (replicate 300 0)])"
proof -
  let ?c = "\<lparr>nbits = 8, start_indices = [0, 2, 3, 3], flat_array = [1, 2, 3, 4, 5, 6 :: int]\<rparr>"
  let ?d = "\<lparr>nbits = 16, start_indices = [0, 300],
             flat_array = replicate 300 (0::int) @ [1]\<rparr>"
  have ic: "invariant_A ?c" by (simp add: invariant_A_def)
  have id: "invariant_A ?d" by (simp add: invariant_A_def)
  have m: "array_or_missing (PyNone :: int item)" "array_or_missing (Array [7 :: int])"
    by (simp_all add: array_or_missing_def)
  have ld: "len ?d = 2" by (simp add: len_def)
  have fit: "offsets_fit ?d 1 (Array [7])"
    by (simp add: offsets_fit_def shift_operands_def Let_def ld elements_wide
        offsets_kept_def offsets_kept_at_def encode_def item_len_def missing_def
        payload_def min_scalar_bits_def)
  have s: "shift_spec [Array (replicate 300 (0::int)), Array [1]] 1 (Array [7])
           = [Array [7], Array (replicate 300 0)]"
    by (simp add: shift_spec_def numeral_2_eq_2)
  show ?thesis
    using shift_elements[OF m(1) ic, of 0 "\<lambda>x. x" "\<lambda>x. x"]
      shift_elements[OF m(2) id, of 1 "\<lambda>x. x" "\<lambda>x. x"] fit ld
    by (auto simp: elements_wide cast_item_ident s reencoded_def)
qed

theorem shift_zero_periods_shares_buffers_counterexample:
  "\<not> (case shift_ref (\<lambda>x. x) (\<lambda>x. x)
             \<lparr>index_arrays = (\<lambda>a. (8, [0, 2])), value_arrays = (\<lambda>a. [1, 2, 3 :: int]),
              next_free = 2\<rparr>
             \<lparr>start_indices_ref = 0, flat_array_ref = 1\<rparr> 0 PyNone of
        Inl e \<Rightarrow> False
      | Inr res \<Rightarrow>
          deep_copy_of
            \<lparr>index_arrays = (\<lambda>a. (8, [0, 2])), value_arrays = (\<lambda>a. [1, 2, 3 :: int]),
             next_free = 2\<rparr>
            \<lparr>start_indices_ref = 0, flat_array_ref = 1\<rparr> res)"
  by (simp add: shift_ref_def copy_ref_def copy_def deref_def validate_ragged_properties_def
      Let_def deep_copy_of_def)

subsection \<open>Access by boolean mask: the elements held\<close>

lemma getitem_mask_encode:
  assumes "length m \<le> len c"
  shows "getitem_mask c m = Inr (encode (map (element c) (true_positions m)))"
proof -
  let ?sel = "map (element c) (true_positions m)"
  have b: "\<And>i. i \<in> set (true_positions m) \<Longrightarrow> i < len c"
    using assms true_positions_bound by fastforce
  have cg: "collect (map (\<lambda>i. getitem c (int i)) (true_positions m)) = Inr ?sel"
    by (rule collect_getitem) (rule b)
  have "getitem_mask c m = from_sequence ?sel"
    by (simp only: getitem_mask_def mask_comprehension cg from_sequence_def sum.case)
  then show ?thesis by (simp only: from_sequence_elements)
qed

lemma selected_in_elements:
  assumes "length m \<le> len c"
  shows "set (map (element c) (true_positions m)) \<subseteq> set (elements c)"
proof -
  have "i < len c" if "i \<in> set (true_positions m)" for i
    using assms true_positions_bound[OF that] by simp
  then show ?thesis by (auto simp: elements_def)
qed

lemma mask_property_no_zero_length:
  assumes l: "length m \<le> len c"
    and ne: "Array [] \<notin> set (map (element c) (true_positions m))"
  shows "mask_property c m"
proof -
  let ?sel = "map (element c) (true_positions m)"
  have p: "list_all array_or_missing ?sel"
    by (simp add: list_all_iff element_array_or_missing)
  have "reencoded v = v" if "v \<in> set ?sel" for v
  proof -
    from that obtain i where i: "v = element c i" by auto
    have "v \<noteq> Array []" using that ne by blast
    with i show ?thesis by (simp add: reencoded_element)
  qed
  then have "map reencoded ?sel = ?sel" by (simp add: map_idI)
  then show ?thesis
    by (simp add: mask_property_def getitem_mask_encode[OF l] elements_encode[OF p])
qed

text \<open>
  C10. Access by boolean mask makes no length check: with a mask no longer than the
  container it succeeds, and the result is the container built from the elements at the
  true positions of the mask, in order (a shorter mask selects from the prefix). The
  result has one position for each true position. It holds exactly the selected
  elements when none of them is a zero-length array, as in every container with
  non-decreasing offsets; a selected zero-length array is held as a missing value.
\<close>

theorem getitem_mask_no_length_check:
  assumes "length m \<le> len c"
  shows "(\<exists>r. getitem_mask c m = Inr r
            \<and> from_sequence (map (element c) (true_positions m)) = Inr r
            \<and> len r = length (true_positions m)
            \<and> materialize r = Inr (map (\<lambda>i. reencoded (element c i)) (true_positions m)))
       \<and> (Array [] \<notin> set (map (element c) (true_positions m)) \<longrightarrow> mask_property c m)
       \<and> (sorted (start_indices c) \<and> invariant_A c \<longrightarrow> mask_property c m)"
proof (intro conjI impI)
  let ?sel = "map (element c) (true_positions m)"
  have g: "getitem_mask c m = Inr (encode ?sel)" by (rule getitem_mask_encode[OF assms])
  have f: "from_sequence ?sel = Inr (encode ?sel)" by (rule from_sequence_elements)
  have m: "materialize (encode ?sel) = Inr (map reencoded ?sel)"
    by (rule materialize_encode) (simp add: list_all_iff element_array_or_missing)
  show "\<exists>r. getitem_mask c m = Inr r \<and> from_sequence ?sel = Inr r
          \<and> len r = length (true_positions m)
          \<and> materialize r = Inr (map (\<lambda>i. reencoded (element c i)) (true_positions m))"
    using g f m by (simp add: comp_def)
next
  assume "Array [] \<notin> set (map (element c) (true_positions m))"
  then show "mask_property c m" by (rule mask_property_no_zero_length[OF assms])
next
  assume "sorted (start_indices c) \<and> invariant_A c"
  then have "Array [] \<notin> set (elements c)"
    by (intro sorted_offsets_no_zero_length) simp_all
  then have "Array [] \<notin> set (map (element c) (true_positions m))"
    using selected_in_elements[OF assms] by blast
  then show "mask_property c m" by (rule mask_property_no_zero_length[OF assms])
qed

theorem getitem_mask_no_length_check_witness:
  "getitem_mask \<lparr>nbits = 8, start_indices = [0, 2, 3, 3], flat_array = [1, 2, 3, 4, 5, 6 :: int]\<rparr>
     [False, True]
   = Inr \<lparr>nbits = 8, start_indices = [0], flat_array = [3]\<rparr>
   \<and> mask_property
       \<lparr>nbits = 8, start_indices = [0, 2, 3, 3], flat_array = [1, 2, 3, 4, 5, 6 :: int]\<rparr>
       [False, True]"
  using getitem_mask_no_length_check[of "[False, True]"
      "\<lparr>nbits = 8, start_indices = [0, 2, 3, 3], flat_array = [1, 2, 3, 4, 5, 6 :: int]\<rparr>"]
  by (simp add: len_def true_positions_def element_def stop_offset_def value_range_def
      from_sequence_def Let_def item_len_def missing_def invariant_A_def)

theorem getitem_mask_zero_length_counterexample:
  "\<not> mask_property \<lparr>nbits = 8, start_indices = [1, 0, 1], flat_array = [5 :: int]\<rparr> [True]"
  by (simp add: mask_property_def getitem_mask_encode len_def true_positions_def element_def
      stop_offset_def value_range_def elements_def encode_def item_len_def missing_def
      payload_def)

end
